theory Spec2Isabelle
  imports Complex_Main "HOL-Library.Word" "HOL-Library.Sublist" "HOL-Library.Code_Target_Numeral"
begin

section \<open>JavaScript strings\<close>

text \<open>
  A JavaScript string is a sequence of 16-bit UTF-16 code units. \<open>js\<close> turns an ASCII
  literal of the source into such a sequence.
\<close>

type_synonym jsstring = "16 word list"

definition js :: "string \<Rightarrow> jsstring" where
  "js s = map of_char s"

section \<open>Data model of \<open>remotesView.ts\<close>\<close>

text \<open>\<open>HostInfo\<close>: \<open>type: "transient" | "configured"; host: string; port?: number\<close>.\<close>

datatype host_type = Transient | Configured

record HostInfo =
  type :: host_type
  host :: jsstring
  port :: "int option"

text \<open>
  Modelled from the spec: \<open>remotesConfig.ts\<close> (\<open>HostConfig\<close> and \<open>HostKind\<close>) is not
  among the sources. A raw host record has the fields \<open>name\<close>, \<open>host\<close>, \<open>port\<close>,
  \<open>connectionToken\<close> (absent, a boolean or a string), \<open>folders\<close> (absent, or a list of
  strings and \<open>{name, path}\<close> objects) and a \<open>type\<close> discriminator; only the kind
  \<open>Manual\<close> is supported. The settings are untyped JSON, so \<open>name\<close> may hold a value
  that is not a string at run time: \<open>OtherLabel\<close>.
\<close>

datatype HostKind = Manual | OtherKind

datatype item_label = StringLabel jsstring | OtherLabel

datatype token_setting = TokenBool bool | TokenString jsstring

datatype FolderConfig = FolderPath jsstring | FolderEntry jsstring jsstring

record HostConfig =
  type :: HostKind
  name :: item_label
  host :: jsstring
  port :: int
  connectionToken :: "token_setting option"
  folders :: "FolderConfig list option"

text \<open>
  The tree items. Of the inherited \<open>TreeItem\<close> only \<open>label\<close> and \<open>collapsibleState\<close>
  are kept; icons, descriptions and context values are presentation.
\<close>

datatype TreeItemCollapsibleState = NoneState | Collapsed | Expanded

record FolderItem =
  label :: jsstring
  host :: jsstring
  path :: jsstring

record PlainHostItem =
  label :: item_label
  collapsibleState :: TreeItemCollapsibleState
  name :: item_label
  folders :: "FolderItem list"
  host :: jsstring
  port :: int
  connectionToken :: token_setting

record KindItem =
  label :: jsstring
  hosts :: "PlainHostItem list"

record ResolvedAuthority =
  host :: jsstring
  port :: "int option"
  connectionToken :: "jsstring option"

datatype error =
    NotAvailable jsstring
  | Error jsstring
  | SyntaxError

section \<open>The state of the extension and of its collaborators\<close>

text \<open>
  \<open>config\<close> is what \<open>workspace.getConfiguration().get("remote.OSS.hosts")\<close> returns
  (\<open>None\<close>: a falsy value, no list); \<open>remotesTree\<close> is the provider's field (\<open>None\<close>:
  \<open>null\<close>); \<open>noHosts\<close> is the context key \<open>remote-oss:noHosts\<close>; \<open>fired\<close> counts the
  \<open>onDidChangeTreeData\<close> events; \<open>inputBox n\<close> is what the user answers to the
  \<open>n\<close>-th input box (\<open>None\<close>: dismissed), and \<open>shown\<close> counts the boxes shown so far.
\<close>

record state =
  config :: "HostConfig list option"
  remotesTree :: "KindItem list option"
  noHosts :: "bool option"
  fired :: nat
  inputBox :: "nat \<Rightarrow> jsstring option"
  shown :: nat

section \<open>\<open>RemotesDataProvider.readTree\<close>\<close>

text \<open>\<open>new PlainHostItem(label, host, port, connectionToken)\<close>, through \<open>HostBase\<close>.\<close>

definition newPlainHostItem ::
  "item_label \<Rightarrow> jsstring \<Rightarrow> int \<Rightarrow> token_setting \<Rightarrow> PlainHostItem" where
  "newPlainHostItem l h p t =
     \<lparr>PlainHostItem.label = l, collapsibleState = NoneState, name = l, folders = [],
      host = h, port = p, connectionToken = t\<rparr>"

definition newFolderItem :: "jsstring \<Rightarrow> jsstring \<Rightarrow> jsstring \<Rightarrow> FolderItem" where
  "newFolderItem l h p = \<lparr>FolderItem.label = l, host = h, path = p\<rparr>"

definition addFolder :: "FolderItem \<Rightarrow> PlainHostItem \<Rightarrow> PlainHostItem" where
  "addFolder folder item =
     item\<lparr>folders := PlainHostItem.folders item @ [folder], collapsibleState := Expanded\<rparr>"

text \<open>JavaScript's \<open>!v\<close> and \<open>typeof v === "boolean"\<close> on the raw \<open>connectionToken\<close>.\<close>

fun falsy_setting :: "token_setting option \<Rightarrow> bool" where
  "falsy_setting None = True"
| "falsy_setting (Some (TokenBool b)) = (\<not> b)"
| "falsy_setting (Some (TokenString s)) = (s = [])"

fun is_boolean :: "token_setting option \<Rightarrow> bool" where
  "is_boolean (Some (TokenBool b)) = True"
| "is_boolean t = False"

text \<open>
  Lines 140 to 143. A value that is neither falsy nor a boolean is kept; \<open>undefined\<close> is
  falsy and no boolean, so the last case is never reached.
\<close>

definition effectiveToken :: "token_setting option \<Rightarrow> token_setting" where
  "effectiveToken t =
     (if falsy_setting t \<and> \<not> is_boolean t then TokenBool True
      else (case t of Some v \<Rightarrow> v | None \<Rightarrow> TokenBool True))"

text \<open>
  The loop over \<open>host.folders\<close>: \<open>hostName\<close> is the label of the item under
  construction, an entry is skipped when that label is no string, and a bare string is
  both the folder's label and its path.
\<close>

fun addFolders :: "FolderConfig list \<Rightarrow> PlainHostItem \<Rightarrow> PlainHostItem" where
  "addFolders [] item = item"
| "addFolders (folder # rest) item =
     (case PlainHostItem.label item of
        OtherLabel \<Rightarrow> addFolders rest item
      | StringLabel hostName \<Rightarrow>
          (case folder of
             FolderPath p \<Rightarrow> addFolders rest (addFolder (newFolderItem p hostName p) item)
           | FolderEntry n p \<Rightarrow> addFolders rest (addFolder (newFolderItem n hostName p) item)))"

text \<open>The item that the loop body builds from one record of kind \<open>Manual\<close>.\<close>

definition hostItem :: "HostConfig \<Rightarrow> PlainHostItem" where
  "hostItem r =
     (let item = newPlainHostItem (HostConfig.name r) (HostConfig.host r) (HostConfig.port r)
                   (effectiveToken (HostConfig.connectionToken r))
      in case HostConfig.folders r of None \<Rightarrow> item | Some fs \<Rightarrow> addFolders fs item)"

text \<open>\<open>KindItem.addHost\<close>.\<close>

definition addHost :: "PlainHostItem \<Rightarrow> KindItem \<Rightarrow> KindItem" where
  "addHost item kind = kind\<lparr>hosts := hosts kind @ [item]\<rparr>"

text \<open>
  The body of the loop over the records. The source adds the item to \<open>manual\<close> before
  it fills in the folders; the array holds a reference, so the entry ends up with its
  folders.
\<close>

definition readHost :: "KindItem \<Rightarrow> HostConfig \<Rightarrow> KindItem" where
  "readHost manual r =
     (if HostConfig.type r = Manual then addHost (hostItem r) manual else manual)"

definition readTree :: "state \<Rightarrow> state" where
  "readTree s =
     (let manual = (case config s of
                      None \<Rightarrow> None
                    | Some rs \<Rightarrow> Some (foldl readHost \<lparr>KindItem.label = js ''manual'', hosts = []\<rparr> rs));
          numberOfHosts = (case manual of None \<Rightarrow> 0 | Some m \<Rightarrow> length (hosts m));
          tree = (case manual of
                    None \<Rightarrow> []
                  | Some m \<Rightarrow> if length (hosts m) > 0 then [m] else [])
      in s\<lparr>noHosts := Some (numberOfHosts = 0), remotesTree := Some tree, fired := Suc (fired s)\<rparr>)"

section \<open>Listing and resolving hosts\<close>

text \<open>\<open>getChildren()\<close> without an element: reads the tree when there is none yet.\<close>

definition getChildren :: "state \<Rightarrow> KindItem list \<times> state" where
  "getChildren s =
     (let s' = (if remotesTree s = None then readTree s else s)
      in (case remotesTree s' of Some t \<Rightarrow> t | None \<Rightarrow> [], s'))"

text \<open>
  \<open>getHostList\<close>: every root entry is a \<open>KindItem\<close>, whose children are its hosts; they
  are collected in order.
\<close>

definition getHostList :: "state \<Rightarrow> PlainHostItem list \<times> state" where
  "getHostList s = (let (root, s') = getChildren s in (concat (map hosts root), s'))"

definition pickToken :: "state \<Rightarrow> jsstring option \<times> state" where
  "pickToken s = (inputBox s (shown s), s\<lparr>shown := Suc (shown s)\<rparr>)"

definition resolveHost :: "jsstring \<Rightarrow> state \<Rightarrow> (error + PlainHostItem) \<times> state" where
  "resolveHost l s =
     (let (all, s') = getHostList s
      in case filter (\<lambda>h. PlainHostItem.label h = StringLabel l) all of
           [] \<Rightarrow> (Inl (NotAvailable (js ''Host '' @ l @ js '' is not configured.'')), s')
         | h # _ \<Rightarrow> (Inr h, s'))"

text \<open>JavaScript's \<open>!token\<close> on the answer of the input box.\<close>

fun falsy :: "jsstring option \<Rightarrow> bool" where
  "falsy None = True"
| "falsy (Some t) = (t = [])"

text \<open>
  \<open>resolveAuthority\<close>. The output channel is a log and is left out. Every host is a
  \<open>PlainHostItem\<close>, so the \<open>instanceof\<close> test holds and the last \<open>throw\<close> is dead.
\<close>

definition resolveAuthority :: "HostInfo \<Rightarrow> state \<Rightarrow> (error + ResolvedAuthority) \<times> state" where
  "resolveAuthority info s =
     (if HostInfo.type info = Transient then
        (let (token, s') = pickToken s
         in if falsy token
            then (Inr \<lparr>ResolvedAuthority.host = HostInfo.host info, port = HostInfo.port info,
                       connectionToken = None\<rparr>, s')
            else (Inr \<lparr>ResolvedAuthority.host = HostInfo.host info, port = HostInfo.port info,
                       connectionToken = token\<rparr>, s'))
      else
        (case resolveHost (HostInfo.host info) s of
           (Inl e, s') \<Rightarrow> (Inl e, s')
         | (Inr resolvedHost, s') \<Rightarrow>
             (case PlainHostItem.connectionToken resolvedHost of
                TokenBool b \<Rightarrow>
                  if \<not> b
                  then (Inr \<lparr>ResolvedAuthority.host = PlainHostItem.host resolvedHost,
                             port = Some (PlainHostItem.port resolvedHost),
                             connectionToken = None\<rparr>, s')
                  else (let (token, s'') = pickToken s'
                        in if falsy token
                           then (Inl (Error (js ''no token specified'')), s'')
                           else (Inr \<lparr>ResolvedAuthority.host = PlainHostItem.host resolvedHost,
                                      port = Some (PlainHostItem.port resolvedHost),
                                      connectionToken = token\<rparr>, s''))
              | TokenString t \<Rightarrow>
                  (Inr \<lparr>ResolvedAuthority.host = PlainHostItem.host resolvedHost,
                        port = Some (PlainHostItem.port resolvedHost),
                        connectionToken = Some t\<rparr>, s'))))"

section \<open>The platform functions behind the authority codec\<close>

text \<open>
  \<open>encode_remote_host\<close> and \<open>decode_remote_host\<close> call \<open>JSON.stringify\<close>,
  \<open>Buffer.from\<close>, \<open>Buffer.toString\<close>, \<open>String.match\<close> and \<open>JSON.parse\<close>. They are
  modelled here as ECMAScript and Node.js define them: strings are sequences of 16-bit
  code units, buffers are sequences of bytes. The numbers of a JSON text are modelled as
  exact integers and rationals: their rounding to a double is not modelled in the codec,
  only in \<open>parseInt\<close> of the command further down.
\<close>

type_synonym byte = "8 word"

text \<open>The value that \<open>JSON.parse\<close> returns; the members of an object in source order.\<close>

datatype json =
    JNull
  | JBool bool
  | JNumber rat
  | JString jsstring
  | JArray "json list"
  | JObject "(jsstring \<times> json) list"

subsection \<open>Surrogate code units\<close>

definition is_high :: "16 word \<Rightarrow> bool" where
  "is_high c = (0xD800 \<le> c \<and> c \<le> 0xDBFF)"

definition is_low :: "16 word \<Rightarrow> bool" where
  "is_low c = (0xDC00 \<le> c \<and> c \<le> 0xDFFF)"

subsection \<open>\<open>JSON.stringify\<close> of a \<open>HostInfo\<close>\<close>

text \<open>
  \<open>QuoteJSONString\<close>: the two-character escapes, a \<open>u\<close> escape in lower-case hexadecimal
  for the other control characters and for a surrogate that has no partner, and every
  other code unit as it is. A high surrogate followed by a low one is a pair and is
  kept.
\<close>

definition hex_digit :: "nat \<Rightarrow> 16 word" where
  "hex_digit n = (if n < 10 then of_nat (0x30 + n) else of_nat (0x61 + (n - 10)))"

definition unicode_escape :: "16 word \<Rightarrow> jsstring" where
  "unicode_escape c =
     [0x5C, 0x75, hex_digit (unat c div 4096), hex_digit (unat c div 256 mod 16),
      hex_digit (unat c div 16 mod 16), hex_digit (unat c mod 16)]"

definition quote_unit :: "16 word \<Rightarrow> jsstring" where
  "quote_unit c =
     (if c = 0x08 then [0x5C, 0x62]
      else if c = 0x09 then [0x5C, 0x74]
      else if c = 0x0A then [0x5C, 0x6E]
      else if c = 0x0C then [0x5C, 0x66]
      else if c = 0x0D then [0x5C, 0x72]
      else if c = 0x22 then [0x5C, 0x22]
      else if c = 0x5C then [0x5C, 0x5C]
      else if c < 0x20 \<or> is_high c \<or> is_low c then unicode_escape c
      else [c])"

fun quote_units :: "jsstring \<Rightarrow> jsstring" where
  "quote_units [] = []"
| "quote_units [c] = quote_unit c"
| "quote_units (c # d # cs) =
     (if is_high c \<and> is_low d then c # d # quote_units cs
      else quote_unit c @ quote_units (d # cs))"

definition QuoteJSONString :: "jsstring \<Rightarrow> jsstring" where
  "QuoteJSONString s = [0x22] @ quote_units s @ [0x22]"

text \<open>An integer is printed in decimal, as \<open>Number::toString\<close> prints it below \<open>10^21\<close>.\<close>

function digits_of :: "nat \<Rightarrow> jsstring" where
  "digits_of n = (if n < 10 then [of_nat (0x30 + n)] else digits_of (n div 10) @ [of_nat (0x30 + n mod 10)])"
  by pat_completeness auto
termination
  by (relation "measure id") auto

declare digits_of.simps [simp del]

definition Number_toString :: "int \<Rightarrow> jsstring" where
  "Number_toString i = (if i < 0 then 0x2D # digits_of (nat (- i)) else digits_of (nat i))"

definition type_string :: "host_type \<Rightarrow> jsstring" where
  "type_string t = (case t of Transient \<Rightarrow> js ''transient'' | Configured \<Rightarrow> js ''configured'')"

text \<open>
  The object literal \<open>{type, host, port}\<close>: the properties in the order they are
  written, \<open>port\<close> left out when it is \<open>undefined\<close>, no white space.
\<close>

definition JSON_stringify :: "HostInfo \<Rightarrow> jsstring" where
  "JSON_stringify info =
     js ''{'' @ QuoteJSONString (js ''type'') @ js '':'' @ QuoteJSONString (type_string (HostInfo.type info))
     @ js '','' @ QuoteJSONString (js ''host'') @ js '':'' @ QuoteJSONString (HostInfo.host info)
     @ (case HostInfo.port info of
          None \<Rightarrow> []
        | Some p \<Rightarrow> js '','' @ QuoteJSONString (js ''port'') @ js '':'' @ Number_toString p)
     @ js ''}''"

subsection \<open>\<open>Buffer.from(string)\<close> and \<open>buffer.toString()\<close>: UTF-8\<close>

definition utf8_bytes :: "nat \<Rightarrow> byte list" where
  "utf8_bytes n =
     (if n < 0x80 then [of_nat n]
      else if n < 0x800 then [of_nat (0xC0 + n div 64), of_nat (0x80 + n mod 64)]
      else if n < 0x10000 then
        [of_nat (0xE0 + n div 4096), of_nat (0x80 + n div 64 mod 64), of_nat (0x80 + n mod 64)]
      else
        [of_nat (0xF0 + n div 262144), of_nat (0x80 + n div 4096 mod 64),
         of_nat (0x80 + n div 64 mod 64), of_nat (0x80 + n mod 64)])"

text \<open>A surrogate pair is one code point; a surrogate without partner becomes U+FFFD.\<close>

fun utf8_encode :: "jsstring \<Rightarrow> byte list" where
  "utf8_encode [] = []"
| "utf8_encode [c] = (if is_high c \<or> is_low c then utf8_bytes 0xFFFD else utf8_bytes (unat c))"
| "utf8_encode (c # d # cs) =
     (if is_high c \<and> is_low d
      then utf8_bytes (0x10000 + (unat c - 0xD800) * 1024 + (unat d - 0xDC00)) @ utf8_encode cs
      else if is_high c \<or> is_low c then utf8_bytes 0xFFFD @ utf8_encode (d # cs)
      else utf8_bytes (unat c) @ utf8_encode (d # cs))"

definition code_units :: "nat \<Rightarrow> jsstring" where
  "code_units n =
     (if n < 0x10000 then [of_nat n]
      else [of_nat (0xD800 + (n - 0x10000) div 1024), of_nat (0xDC00 + (n - 0x10000) mod 1024)])"

definition continuation :: "byte \<Rightarrow> bool" where
  "continuation b = (0x80 \<le> b \<and> b \<le> 0xBF)"

definition second_ok :: "byte \<Rightarrow> byte \<Rightarrow> bool" where
  "second_ok b c =
     (if b = 0xE0 then 0xA0 \<le> c \<and> c \<le> 0xBF
      else if b = 0xED then 0x80 \<le> c \<and> c \<le> 0x9F
      else if b = 0xF0 then 0x90 \<le> c \<and> c \<le> 0xBF
      else if b = 0xF4 then 0x80 \<le> c \<and> c \<le> 0x8F
      else continuation c)"

text \<open>
  Decoding replaces every maximal ill-formed part by U+FFFD, and goes on with the byte
  that did not fit.
\<close>

fun utf8_decode :: "byte list \<Rightarrow> jsstring" where
  "utf8_decode [] = []"
| "utf8_decode (b # bs) =
     (if b < 0x80 then code_units (unat b) @ utf8_decode bs
      else if 0xC2 \<le> b \<and> b \<le> 0xDF then
        (case bs of
           [] \<Rightarrow> [0xFFFD]
         | c # cs \<Rightarrow>
             if continuation c
             then code_units ((unat b - 0xC0) * 64 + (unat c - 0x80)) @ utf8_decode cs
             else 0xFFFD # utf8_decode bs)
      else if 0xE0 \<le> b \<and> b \<le> 0xEF then
        (case bs of
           [] \<Rightarrow> [0xFFFD]
         | c # cs \<Rightarrow>
             if second_ok b c then
               (case cs of
                  [] \<Rightarrow> [0xFFFD]
                | d # ds \<Rightarrow>
                    if continuation d
                    then code_units ((unat b - 0xE0) * 4096 + (unat c - 0x80) * 64 + (unat d - 0x80))
                         @ utf8_decode ds
                    else 0xFFFD # utf8_decode cs)
             else 0xFFFD # utf8_decode bs)
      else if 0xF0 \<le> b \<and> b \<le> 0xF4 then
        (case bs of
           [] \<Rightarrow> [0xFFFD]
         | c # cs \<Rightarrow>
             if second_ok b c then
               (case cs of
                  [] \<Rightarrow> [0xFFFD]
                | d # ds \<Rightarrow>
                    if continuation d then
                      (case ds of
                         [] \<Rightarrow> [0xFFFD]
                       | e # es \<Rightarrow>
                           if continuation e
                           then code_units ((unat b - 0xF0) * 262144 + (unat c - 0x80) * 4096
                                  + (unat d - 0x80) * 64 + (unat e - 0x80))
                                @ utf8_decode es
                           else 0xFFFD # utf8_decode ds)
                    else 0xFFFD # utf8_decode cs)
             else 0xFFFD # utf8_decode bs)
      else 0xFFFD # utf8_decode bs)"

subsection \<open>\<open>buffer.toString("base64")\<close> and \<open>Buffer.from(string, "base64")\<close>\<close>

definition base64_char :: "nat \<Rightarrow> 16 word" where
  "base64_char n =
     (if n < 26 then of_nat (0x41 + n)
      else if n < 52 then of_nat (0x61 + (n - 26))
      else if n < 62 then of_nat (0x30 + (n - 52))
      else if n = 62 then 0x2B
      else 0x2F)"

fun base64_encode :: "byte list \<Rightarrow> jsstring" where
  "base64_encode [] = []"
| "base64_encode [a] =
     [base64_char (unat a div 4), base64_char (unat a mod 4 * 16), 0x3D, 0x3D]"
| "base64_encode [a, b] =
     [base64_char (unat a div 4), base64_char (unat a mod 4 * 16 + unat b div 16),
      base64_char (unat b mod 16 * 4), 0x3D]"
| "base64_encode (a # b # c # rest) =
     [base64_char (unat a div 4), base64_char (unat a mod 4 * 16 + unat b div 16),
      base64_char (unat b mod 16 * 4 + unat c div 64), base64_char (unat c mod 64)]
     @ base64_encode rest"

text \<open>
  Node's decoder is lenient: it reads every code unit through a cast to \<open>uint8_t\<close>,
  accepts the URL-safe alphabet too, skips what is in neither alphabet, stops at the
  first \<open>=\<close>, and turns a last group of two or three characters into one or two
  bytes. It never fails.
\<close>

definition unbase64 :: "byte \<Rightarrow> nat option" where
  "unbase64 c =
     (if 0x41 \<le> c \<and> c \<le> 0x5A then Some (unat c - 0x41)
      else if 0x61 \<le> c \<and> c \<le> 0x7A then Some (unat c - 0x61 + 26)
      else if 0x30 \<le> c \<and> c \<le> 0x39 then Some (unat c - 0x30 + 52)
      else if c = 0x2B \<or> c = 0x2D then Some 62
      else if c = 0x2F \<or> c = 0x5F then Some 63
      else None)"

definition sextets :: "jsstring \<Rightarrow> nat list" where
  "sextets s = List.map_filter unbase64 (takeWhile (\<lambda>c. c \<noteq> 0x3D) (map ucast s))"

fun base64_bytes :: "nat list \<Rightarrow> byte list" where
  "base64_bytes (a # b # c # d # rest) =
     [of_nat (a * 4 + b div 16), of_nat (b mod 16 * 16 + c div 4), of_nat (c mod 4 * 64 + d)]
     @ base64_bytes rest"
| "base64_bytes [a, b, c] = [of_nat (a * 4 + b div 16), of_nat (b mod 16 * 16 + c div 4)]"
| "base64_bytes [a, b] = [of_nat (a * 4 + b div 16)]"
| "base64_bytes rest = []"

definition base64_decode :: "jsstring \<Rightarrow> byte list" where
  "base64_decode s = base64_bytes (sextets s)"

subsection \<open>\<open>JSON.parse\<close>\<close>

definition is_ws :: "16 word \<Rightarrow> bool" where
  "is_ws c = (c = 0x20 \<or> c = 0x09 \<or> c = 0x0A \<or> c = 0x0D)"

definition skip_ws :: "jsstring \<Rightarrow> jsstring" where
  "skip_ws s = dropWhile is_ws s"

definition is_digit :: "16 word \<Rightarrow> bool" where
  "is_digit c = (0x30 \<le> c \<and> c \<le> 0x39)"

definition decimal :: "jsstring \<Rightarrow> nat" where
  "decimal ds = foldl (\<lambda>n c. 10 * n + (unat c - 0x30)) 0 ds"

definition hex_value :: "16 word \<Rightarrow> nat option" where
  "hex_value c =
     (if 0x30 \<le> c \<and> c \<le> 0x39 then Some (unat c - 0x30)
      else if 0x61 \<le> c \<and> c \<le> 0x66 then Some (unat c - 0x61 + 10)
      else if 0x41 \<le> c \<and> c \<le> 0x46 then Some (unat c - 0x41 + 10)
      else None)"

definition hex4 :: "16 word \<Rightarrow> 16 word \<Rightarrow> 16 word \<Rightarrow> 16 word \<Rightarrow> 16 word option" where
  "hex4 a b c d =
     (case (hex_value a, hex_value b, hex_value c, hex_value d) of
        (Some w, Some x, Some y, Some z) \<Rightarrow> Some (of_nat (w * 4096 + x * 256 + y * 16 + z))
      | _ \<Rightarrow> None)"

definition unescape :: "16 word \<Rightarrow> 16 word option" where
  "unescape e =
     (if e = 0x22 then Some 0x22
      else if e = 0x5C then Some 0x5C
      else if e = 0x2F then Some 0x2F
      else if e = 0x62 then Some 0x08
      else if e = 0x66 then Some 0x0C
      else if e = 0x6E then Some 0x0A
      else if e = 0x72 then Some 0x0D
      else if e = 0x74 then Some 0x09
      else None)"

definition cons_unit :: "16 word \<Rightarrow> (jsstring \<times> jsstring) option \<Rightarrow> (jsstring \<times> jsstring) option" where
  "cons_unit c r = (case r of None \<Rightarrow> None | Some (s, rest) \<Rightarrow> Some (c # s, rest))"

text \<open>The characters of a string, after the opening quote, up to the closing one.\<close>

fun parse_string :: "jsstring \<Rightarrow> (jsstring \<times> jsstring) option" where
  "parse_string [] = None"
| "parse_string (c # cs) =
     (if c = 0x22 then Some ([], cs)
      else if c = 0x5C then
        (case cs of
           [] \<Rightarrow> None
         | e # es \<Rightarrow>
             if e = 0x75 then
               (case es of
                  h1 # h2 # h3 # h4 # r \<Rightarrow>
                    (case hex4 h1 h2 h3 h4 of
                       None \<Rightarrow> None
                     | Some u \<Rightarrow> cons_unit u (parse_string r))
                | _ \<Rightarrow> None)
             else
               (case unescape e of
                  None \<Rightarrow> None
                | Some u \<Rightarrow> cons_unit u (parse_string es)))
      else if c < 0x20 then None
      else cons_unit c (parse_string cs))"

text \<open>
  A number: an optional minus, \<open>0\<close> or digits without leading zero, an optional
  fraction, an optional exponent. Its value is the exact one.
\<close>

definition parse_int_part :: "jsstring \<Rightarrow> (nat \<times> jsstring) option" where
  "parse_int_part s =
     (case s of
        [] \<Rightarrow> None
      | c # r \<Rightarrow>
          if c = 0x30 then Some (0, r)
          else if is_digit c then Some (decimal (takeWhile is_digit s), dropWhile is_digit s)
          else None)"

definition parse_fraction :: "jsstring \<Rightarrow> (rat \<times> jsstring) option" where
  "parse_fraction s =
     (case s of
        [] \<Rightarrow> Some (0, s)
      | c # r \<Rightarrow>
          if c = 0x2E then
            (let ds = takeWhile is_digit r
             in if ds = [] then None
                else Some (of_nat (decimal ds) / 10 ^ length ds, dropWhile is_digit r))
          else Some (0, s))"

definition parse_exponent :: "jsstring \<Rightarrow> (int \<times> jsstring) option" where
  "parse_exponent s =
     (case s of
        [] \<Rightarrow> Some (0, s)
      | c # r \<Rightarrow>
          if c = 0x65 \<or> c = 0x45 then
            (let (neg, r') = (case r of
                                [] \<Rightarrow> (False, r)
                              | d # t \<Rightarrow> if d = 0x2D then (True, t)
                                         else if d = 0x2B then (False, t) else (False, r));
                 ds = takeWhile is_digit r'
             in if ds = [] then None
                else Some (if neg then - int (decimal ds) else int (decimal ds),
                           dropWhile is_digit r'))
          else Some (0, s))"

definition parse_number :: "jsstring \<Rightarrow> (rat \<times> jsstring) option" where
  "parse_number s =
     (let (neg, s1) = (case s of
                         [] \<Rightarrow> (False, s)
                       | c # r \<Rightarrow> if c = 0x2D then (True, r) else (False, s))
      in case parse_int_part s1 of
           None \<Rightarrow> None
         | Some (i, s2) \<Rightarrow>
             (case parse_fraction s2 of
                None \<Rightarrow> None
              | Some (f, s3) \<Rightarrow>
                  (case parse_exponent s3 of
                     None \<Rightarrow> None
                   | Some (e, s4) \<Rightarrow>
                       Some ((if neg then - 1 else 1) * (of_nat i + f)
                             * (if e < 0 then 1 / 10 ^ nat (- e) else 10 ^ nat e), s4))))"

text \<open>
  The recursive descent over values, array elements and object members. The first
  argument bounds the number of nested calls; \<open>JSON_parse\<close> passes enough of it (lemma
  \<open>enough_fuel\<close> below), so \<open>OutOfFuel\<close> never comes out of it and \<open>None\<close> is a
  \<open>SyntaxError\<close>.
\<close>

datatype 'a parse = OutOfFuel | Invalid | Parsed 'a jsstring

fun parse_value :: "nat \<Rightarrow> jsstring \<Rightarrow> json parse"
  and parse_elements :: "nat \<Rightarrow> json list \<Rightarrow> jsstring \<Rightarrow> json parse"
  and parse_members :: "nat \<Rightarrow> (jsstring \<times> json) list \<Rightarrow> jsstring \<Rightarrow> json parse"
where
  "parse_value 0 s = OutOfFuel"
| "parse_value (Suc n) s =
     (case skip_ws s of
        [] \<Rightarrow> Invalid
      | c # r \<Rightarrow>
          if c = 0x7B then
            (case skip_ws r of
               [] \<Rightarrow> Invalid
             | d # r' \<Rightarrow> if d = 0x7D then Parsed (JObject []) r' else parse_members n [] (d # r'))
          else if c = 0x5B then
            (case skip_ws r of
               [] \<Rightarrow> Invalid
             | d # r' \<Rightarrow> if d = 0x5D then Parsed (JArray []) r' else parse_elements n [] (d # r'))
          else if c = 0x22 then
            (case parse_string r of
               None \<Rightarrow> Invalid
             | Some (str, r') \<Rightarrow> Parsed (JString str) r')
          else if take 4 (c # r) = js ''true'' then Parsed (JBool True) (drop 4 (c # r))
          else if take 5 (c # r) = js ''false'' then Parsed (JBool False) (drop 5 (c # r))
          else if take 4 (c # r) = js ''null'' then Parsed JNull (drop 4 (c # r))
          else
            (case parse_number (c # r) of
               None \<Rightarrow> Invalid
             | Some (q, r') \<Rightarrow> Parsed (JNumber q) r'))"
| "parse_elements 0 acc s = OutOfFuel"
| "parse_elements (Suc n) acc s =
     (case parse_value n s of
        OutOfFuel \<Rightarrow> OutOfFuel
      | Invalid \<Rightarrow> Invalid
      | Parsed v r \<Rightarrow>
          (case skip_ws r of
             [] \<Rightarrow> Invalid
           | d # r' \<Rightarrow>
               if d = 0x2C then parse_elements n (acc @ [v]) r'
               else if d = 0x5D then Parsed (JArray (acc @ [v])) r'
               else Invalid))"
| "parse_members 0 acc s = OutOfFuel"
| "parse_members (Suc n) acc s =
     (case skip_ws s of
        [] \<Rightarrow> Invalid
      | c # r \<Rightarrow>
          if c = 0x22 then
            (case parse_string r of
               None \<Rightarrow> Invalid
             | Some (k, r1) \<Rightarrow>
                 (case skip_ws r1 of
                    [] \<Rightarrow> Invalid
                  | c1 # r2 \<Rightarrow>
                      if c1 = 0x3A then
                        (case parse_value n r2 of
                           OutOfFuel \<Rightarrow> OutOfFuel
                         | Invalid \<Rightarrow> Invalid
                         | Parsed v r3 \<Rightarrow>
                             (case skip_ws r3 of
                                [] \<Rightarrow> Invalid
                              | d # r4 \<Rightarrow>
                                  if d = 0x2C then parse_members n (acc @ [(k, v)]) r4
                                  else if d = 0x7D then Parsed (JObject (acc @ [(k, v)])) r4
                                  else Invalid))
                      else Invalid))
          else Invalid)"

definition JSON_parse :: "jsstring \<Rightarrow> json option" where
  "JSON_parse text =
     (case parse_value (2 * length text + 1) text of
        Parsed v r \<Rightarrow> if skip_ws r = [] then Some v else None
      | _ \<Rightarrow> None)"

section \<open>Regular expressions\<close>

text \<open>
  The two patterns of the sources are matched as JavaScript matches them, by
  backtracking. A matcher takes the rest of the input and a continuation for what
  follows in the pattern. \<open>re_greedy\<close> is a quantified character class: it takes the
  longest run first and gives characters back one at a time while the continuation
  fails; the continuation receives the run, which is the text of the group, and the
  rest. \<open>re_star\<close> allows the empty run and \<open>re_plus\<close> does not. \<open>re_lit\<close> matches
  literal characters, \<open>re_end\<close> is \<open>$\<close>, and \<open>re_search\<close> tries every start position
  from the left, as a pattern without \<open>^\<close> is searched.
\<close>

fun re_greedy ::
  "(16 word \<Rightarrow> bool) \<Rightarrow> jsstring \<Rightarrow> (jsstring \<Rightarrow> jsstring \<Rightarrow> 'a option) \<Rightarrow> jsstring \<Rightarrow> 'a option" where
  "re_greedy p run k [] = k run []"
| "re_greedy p run k (c # cs) =
     (if p c then
        (case re_greedy p (run @ [c]) k cs of
           Some r \<Rightarrow> Some r
         | None \<Rightarrow> k run (c # cs))
      else k run (c # cs))"

definition re_star :: "(16 word \<Rightarrow> bool) \<Rightarrow> (jsstring \<Rightarrow> jsstring \<Rightarrow> 'a option) \<Rightarrow> jsstring \<Rightarrow> 'a option" where
  "re_star p k s = re_greedy p [] k s"

definition re_plus :: "(16 word \<Rightarrow> bool) \<Rightarrow> (jsstring \<Rightarrow> jsstring \<Rightarrow> 'a option) \<Rightarrow> jsstring \<Rightarrow> 'a option" where
  "re_plus p k s = re_greedy p [] (\<lambda>run rest. if run = [] then None else k run rest) s"

fun re_lit :: "jsstring \<Rightarrow> (jsstring \<Rightarrow> 'a option) \<Rightarrow> jsstring \<Rightarrow> 'a option" where
  "re_lit [] k s = k s"
| "re_lit (x # xs) k [] = None"
| "re_lit (x # xs) k (c # cs) = (if c = x then re_lit xs k cs else None)"

definition re_end :: "'a option \<Rightarrow> jsstring \<Rightarrow> 'a option" where
  "re_end r s = (if s = [] then r else None)"

fun re_search :: "(jsstring \<Rightarrow> 'a option) \<Rightarrow> jsstring \<Rightarrow> 'a option" where
  "re_search k [] = k []"
| "re_search k (c # cs) = (case k (c # cs) of Some r \<Rightarrow> Some r | None \<Rightarrow> re_search k cs)"

section \<open>The authority codec of \<open>remotesView.ts\<close>\<close>

definition encode_remote_host :: "HostInfo \<Rightarrow> jsstring" where
  "encode_remote_host info =
     (let json = JSON_stringify info;
          base64 = base64_encode (utf8_encode json)
      in js ''remote-oss+'' @ base64)"

text \<open>
  \<open>encoded.match\<close> with the pattern \<open>remote-oss\+\<close> followed by a group of any
  characters, as many as possible. The pattern is not anchored; the dot of a pattern
  matches every code unit but the four line terminators. The result is the text of the
  group, \<open>match[1]\<close>, or \<open>None\<close> when there is no match.
\<close>

definition line_terminator :: "16 word \<Rightarrow> bool" where
  "line_terminator c = (c = 0x0A \<or> c = 0x0D \<or> c = 0x2028 \<or> c = 0x2029)"

definition match_marker :: "jsstring \<Rightarrow> jsstring option" where
  "match_marker encoded =
     re_search (re_lit (js ''remote-oss+'')
                 (re_star (\<lambda>c. \<not> line_terminator c) (\<lambda>group rest. Some group))) encoded"

text \<open>
  \<open>decode_remote_host\<close> returns what \<open>JSON.parse\<close> returns, typed as \<open>HostInfo\<close> by
  the compiler only; \<open>Inr None\<close> is \<open>undefined\<close>, and a \<open>SyntaxError\<close> of
  \<open>JSON.parse\<close> is thrown on.
\<close>

definition decode_remote_host :: "jsstring \<Rightarrow> error + json option" where
  "decode_remote_host encoded =
     (case match_marker encoded of
        Some base64 \<Rightarrow>
          (let json = utf8_decode (base64_decode base64)
           in case JSON_parse json of
                None \<Rightarrow> Inl SyntaxError
              | Some info \<Rightarrow> Inr (Some info))
      | None \<Rightarrow> Inr None)"

text \<open>
  A \<open>HostInfo\<close> as the JavaScript object it is, and the reading of an object as a
  \<open>HostInfo\<close>: \<open>type\<close> one of the two strings, \<open>host\<close> a string, \<open>port\<close> absent or
  an integer. Of a repeated key \<open>JSON.parse\<close> keeps the last value.
\<close>

definition object_of :: "HostInfo \<Rightarrow> json" where
  "object_of info =
     JObject ([(js ''type'', JString (type_string (HostInfo.type info))),
               (js ''host'', JString (HostInfo.host info))]
              @ (case HostInfo.port info of
                   None \<Rightarrow> []
                 | Some p \<Rightarrow> [(js ''port'', JNumber (of_int p))]))"

definition property :: "(jsstring \<times> json) list \<Rightarrow> jsstring \<Rightarrow> json option" where
  "property members k = map_of (rev members) k"

definition as_HostInfo :: "json \<Rightarrow> HostInfo option" where
  "as_HostInfo v =
     (case v of
        JObject members \<Rightarrow>
          (case property members (js ''type'') of
             Some (JString t) \<Rightarrow>
               (case property members (js ''host'') of
                  Some (JString h) \<Rightarrow>
                    (if t = js ''transient'' \<or> t = js ''configured'' then
                       (case property members (js ''port'') of
                          None \<Rightarrow>
                            Some \<lparr>HostInfo.type = (if t = js ''transient'' then Transient else Configured),
                                  host = h, port = None\<rparr>
                        | Some (JNumber q) \<Rightarrow>
                            if of_int \<lfloor>q\<rfloor> = q
                            then Some \<lparr>HostInfo.type = (if t = js ''transient'' then Transient else Configured),
                                       host = h, port = Some \<lfloor>q\<rfloor>\<rparr>
                            else None
                        | Some _ \<Rightarrow> None)
                     else None)
                | _ \<Rightarrow> None)
           | _ \<Rightarrow> None)
      | _ \<Rightarrow> None)"

text \<open>A string without unpaired surrogates, and a code unit that is no surrogate.\<close>

fun well_formed :: "jsstring \<Rightarrow> bool" where
  "well_formed [] = True"
| "well_formed [c] = (\<not> is_high c \<and> \<not> is_low c)"
| "well_formed (c # d # cs) =
     (if is_high c \<and> is_low d then well_formed cs
      else \<not> is_high c \<and> \<not> is_low c \<and> well_formed (d # cs))"

definition plain :: "16 word \<Rightarrow> bool" where
  "plain c = (\<not> is_high c \<and> \<not> is_low c)"

section \<open>The command \<open>remote-oss.connectToTemporaryHost\<close> of \<open>extension.ts\<close>\<close>

text \<open>
  \<open>host.match(/^\[([^\]]+)\]:(\d+)$|^([^:]+):(\d+)$/)\<close>. Both alternatives are anchored
  at the start, so only the start position 0 can match, and the first alternative is
  tried first. \<open>\d\<close> is one of the digits 0 to 9. \<open>Bracketed\<close> carries the groups 1 and
  2, \<open>Plain\<close> the groups 3 and 4; the groups of the other alternative are
  \<open>undefined\<close>.
\<close>

datatype host_match = Bracketed jsstring jsstring | Plain jsstring jsstring

definition match_bracketed :: "jsstring \<Rightarrow> (jsstring \<times> jsstring) option" where
  "match_bracketed s =
     re_lit [0x5B]
       (re_plus (\<lambda>c. c \<noteq> 0x5D) (\<lambda>g1.
          re_lit [0x5D, 0x3A]
            (re_plus is_digit (\<lambda>g2. re_end (Some (g1, g2)))))) s"

definition match_plain :: "jsstring \<Rightarrow> (jsstring \<times> jsstring) option" where
  "match_plain s =
     re_plus (\<lambda>c. c \<noteq> 0x3A) (\<lambda>g3.
       re_lit [0x3A]
         (re_plus is_digit (\<lambda>g4. re_end (Some (g3, g4))))) s"

definition match_host :: "jsstring \<Rightarrow> host_match option" where
  "match_host s =
     (case match_bracketed s of
        Some (h, p) \<Rightarrow> Some (Bracketed h p)
      | None \<Rightarrow> (case match_plain s of Some (h, p) \<Rightarrow> Some (Plain h p) | None \<Rightarrow> None))"

text \<open>
  The numbers that \<open>parseInt\<close> returns for a string of decimal digits. A number is a
  double, and the doubles that come up here are integers or \<open>Infinity\<close>.
\<close>

datatype number = Finite int | Infinity

text \<open>The number of binary digits of \<open>n\<close>.\<close>

fun bit_length :: "nat \<Rightarrow> nat" where
  "bit_length n = (if n = 0 then 0 else Suc (bit_length (n div 2)))"

declare bit_length.simps [simp del]

text \<open>
  The Number value for the integer \<open>n\<close>: the double nearest to \<open>n\<close>, and of two
  doubles that are equally near the one with the even significand. A significand has 53
  binary digits, so \<open>e\<close> is the exponent of the last digit kept, \<open>q\<close> is the
  significand before rounding and \<open>r\<close> is what is cut off. The greatest double is
  \<open>(2^53 - 1) * 2^971\<close>; what rounds to \<open>2^1024\<close> or more is \<open>Infinity\<close>.
\<close>

definition number_value :: "nat \<Rightarrow> number" where
  "number_value n =
     (let e = bit_length n - 53;
          q = n div 2 ^ e;
          r = n mod 2 ^ e;
          m = (if 2 ^ e < 2 * r \<or> (2 * r = 2 ^ e \<and> odd q) then q + 1 else q)
      in if 2 ^ 1024 \<le> m * 2 ^ e then Infinity else Finite (int (m * 2 ^ e)))"

text \<open>
  \<open>parseInt\<close> of a string of decimal digits, which is all the pattern lets through: the
  radix is 10, also after a leading zero, and the result is the Number value for the
  integer that the digits denote.
\<close>

definition parseInt :: "jsstring \<Rightarrow> number" where
  "parseInt p = number_value (decimal p)"

definition empty_message :: jsstring where
  "empty_message = js ''Host should not be empty.''"

definition format_message :: jsstring where
  "format_message =
     js ''Invalid host format. Should be '' @ [0x27] @ js ''hostname:port'' @ [0x27]
     @ js '' or '' @ [0x27] @ js ''[ipv6]:port'' @ [0x27] @ js ''.''"

text \<open>
  The object \<open>{ type: "transient", host: hostname, port: parseInt(port) }\<close> that the
  handler passes to \<open>encode_remote_host\<close>. Its port is the number that \<open>parseInt\<close>
  returns, which is \<open>Infinity\<close> for a long string of digits; \<open>HostInfo\<close> above holds
  the ports that are integers.
\<close>

record TemporaryHostInfo =
  type :: host_type
  host :: jsstring
  port :: number

text \<open>
  The handler up to the object it encodes. \<open>input\<close> is the answer of the input box;
  \<open>Inl\<close> is the message of \<open>showErrorMessage\<close>. Group 1 and group 2 are not empty
  when the first alternative matched, so \<open>match[1] || match[3]\<close> is group 1 then, and
  group 3 otherwise.
\<close>

definition temporaryHost :: "jsstring option \<Rightarrow> jsstring + TemporaryHostInfo" where
  "temporaryHost input =
     (if falsy input then Inl empty_message
      else case input of
             None \<Rightarrow> Inl empty_message
           | Some h \<Rightarrow>
               (case match_host h of
                  None \<Rightarrow> Inl format_message
                | Some m \<Rightarrow>
                    (let hostname = (case m of Bracketed g1 g2 \<Rightarrow> g1 | Plain g3 g4 \<Rightarrow> g3);
                         portText = (case m of Bracketed g1 g2 \<Rightarrow> g2 | Plain g3 g4 \<Rightarrow> g4)
                     in Inr \<lparr>TemporaryHostInfo.type = Transient, host = hostname,
                             port = parseInt portText\<rparr>)))"

text \<open>
  The two forms of the spec: \<open>hostname:port\<close>, where the host name is any non-empty
  string without a colon, and \<open>[ipv6-literal]:port\<close>, where the literal is any non-empty
  string without \<open>]\<close>; the port is a non-empty string of digits.
\<close>

definition bracketed_form :: "jsstring \<Rightarrow> jsstring \<Rightarrow> jsstring \<Rightarrow> bool" where
  "bracketed_form s h p =
     (s = [0x5B] @ h @ [0x5D, 0x3A] @ p \<and> h \<noteq> [] \<and> 0x5D \<notin> set h
      \<and> p \<noteq> [] \<and> list_all is_digit p)"

definition hostname_form :: "jsstring \<Rightarrow> jsstring \<Rightarrow> jsstring \<Rightarrow> bool" where
  "hostname_form s h p =
     (s = h @ [0x3A] @ p \<and> h \<noteq> [] \<and> 0x3A \<notin> set h \<and> p \<noteq> [] \<and> list_all is_digit p)"

definition all_digits :: "jsstring \<Rightarrow> bool" where
  "all_digits p = (p \<noteq> [] \<and> list_all is_digit p)"

section \<open>The spec's view of the token setting, and sample configurations\<close>

text \<open>
  The spec calls the three cases that \<open>resolveAuthority\<close> distinguishes on a host item's
  \<open>connectionToken\<close> its credential policy: \<open>true\<close> is AlwaysPrompt, \<open>false\<close> is
  NeverPrompt, and a string is FixedToken.
\<close>

datatype credentialPolicy = AlwaysPrompt | NeverPrompt | FixedToken jsstring

fun policyOf :: "PlainHostItem \<Rightarrow> credentialPolicy" where
  "policyOf h =
     (case PlainHostItem.connectionToken h of
        TokenBool b \<Rightarrow> if \<not> b then NeverPrompt else AlwaysPrompt
      | TokenString t \<Rightarrow> FixedToken t)"

text \<open>
  Sample inputs: a raw record of kind \<open>Manual\<close> without folders, a state in which the
  tree has not been read yet and every input box is answered the same way, a
  configuration with a repeated name, one with folders, and a transient reference.
\<close>

definition rawHost :: "string \<Rightarrow> string \<Rightarrow> int \<Rightarrow> token_setting option \<Rightarrow> HostConfig" where
  "rawHost n h p t =
     \<lparr>HostConfig.type = Manual, name = StringLabel (js n), host = js h, port = p,
      connectionToken = t, folders = None\<rparr>"

definition initial :: "HostConfig list \<Rightarrow> jsstring option \<Rightarrow> state" where
  "initial rs answer =
     \<lparr>config = Some rs, remotesTree = None, noHosts = None, fired = 0,
      inputBox = (\<lambda>n. answer), shown = 0\<rparr>"


definition folderConfig :: "HostConfig list" where
  "folderConfig =
     [\<lparr>HostConfig.type = Manual, name = StringLabel (js ''a''), host = js ''1.2.3.4'', port = 22,
       connectionToken = None,
       folders = Some [FolderPath (js ''/srv''), FolderEntry (js ''home'') (js ''/home/u'')]\<rparr>,
      \<lparr>HostConfig.type = Manual, name = OtherLabel, host = js ''5.6.7.8'', port = 23,
       connectionToken = None, folders = Some [FolderPath (js ''/tmp'')]\<rparr>]"

definition sampleHost :: HostInfo where
  "sampleHost = \<lparr>HostInfo.type = Transient, host = js ''example.com'', port = Some 22\<rparr>"

section \<open>Properties of the registry\<close>

lemma addFolders_fields:
  "PlainHostItem.label (addFolders fs i) = PlainHostItem.label i"
  "PlainHostItem.name (addFolders fs i) = PlainHostItem.name i"
  "PlainHostItem.host (addFolders fs i) = PlainHostItem.host i"
  "PlainHostItem.port (addFolders fs i) = PlainHostItem.port i"
  "PlainHostItem.connectionToken (addFolders fs i) = PlainHostItem.connectionToken i"
  by (induction fs i rule: addFolders.induct;
      simp add: addFolder_def split: item_label.splits FolderConfig.splits)+

lemma hostItem_fields:
  "PlainHostItem.label (hostItem r) = HostConfig.name r"
  "PlainHostItem.name (hostItem r) = HostConfig.name r"
  "PlainHostItem.host (hostItem r) = HostConfig.host r"
  "PlainHostItem.port (hostItem r) = HostConfig.port r"
  "PlainHostItem.connectionToken (hostItem r) = effectiveToken (HostConfig.connectionToken r)"
  by (simp_all add: hostItem_def Let_def newPlainHostItem_def addFolders_fields split: option.splits)

lemma folders_addFolders:
  "PlainHostItem.folders (addFolders fs i) =
     PlainHostItem.folders i @
     (case PlainHostItem.label i of
        OtherLabel \<Rightarrow> []
      | StringLabel n \<Rightarrow>
          map (\<lambda>f. case f of FolderPath p \<Rightarrow> newFolderItem p n p
                            | FolderEntry a p \<Rightarrow> newFolderItem a n p) fs)"
  by (induction fs i rule: addFolders.induct)
     (simp_all add: addFolder_def split: item_label.splits FolderConfig.splits)

lemma folders_hostItem:
  "PlainHostItem.folders (hostItem q) =
     (case HostConfig.name q of
        OtherLabel \<Rightarrow> []
      | StringLabel n \<Rightarrow>
          map (\<lambda>f. case f of FolderPath p \<Rightarrow> newFolderItem p n p
                            | FolderEntry a p \<Rightarrow> newFolderItem a n p)
              (case HostConfig.folders q of None \<Rightarrow> [] | Some fs \<Rightarrow> fs))"
  by (simp add: hostItem_def Let_def folders_addFolders newPlainHostItem_def
      split: option.splits item_label.splits)

lemma hosts_foldl_readHost:
  "hosts (foldl readHost m rs) = hosts m @ map hostItem (filter (\<lambda>r. HostConfig.type r = Manual) rs)"
  by (induction rs arbitrary: m) (simp_all add: readHost_def addHost_def)

lemma remotesTree_readTree:
  "remotesTree (readTree s) = Some (case config s of None \<Rightarrow> [] | Some rs \<Rightarrow>
     (if filter (\<lambda>r. HostConfig.type r = Manual) rs = [] then []
      else [\<lparr>KindItem.label = js ''manual'',
             hosts = map hostItem (filter (\<lambda>r. HostConfig.type r = Manual) rs)\<rparr>]))"
proof (cases "config s")
  case None
  then show ?thesis by (simp add: readTree_def)
next
  case (Some rs)
  have *: "foldl readHost \<lparr>KindItem.label = js ''manual'', hosts = []\<rparr> rs
     = \<lparr>KindItem.label = js ''manual'', hosts = map hostItem (filter (\<lambda>r. HostConfig.type r = Manual) rs)\<rparr>"
    by (induction rs rule: rev_induct) (simp_all add: readHost_def addHost_def)
  show ?thesis using Some by (simp add: readTree_def Let_def *)
qed

lemma readTree_other:
  "config (readTree s) = config s" "inputBox (readTree s) = inputBox s" "shown (readTree s) = shown s"
  by (simp_all add: readTree_def Let_def)

lemma getHostList_readTree:
  "fst (getHostList (readTree s)) =
     (case config s of None \<Rightarrow> [] | Some rs \<Rightarrow> map hostItem (filter (\<lambda>r. HostConfig.type r = Manual) rs))"
  by (simp add: getHostList_def getChildren_def remotesTree_readTree Let_def split: option.splits)


lemma getHostList_fresh:
  "remotesTree s = None \<Longrightarrow> getHostList s = getHostList (readTree s)"
  by (simp add: getHostList_def getChildren_def remotesTree_readTree Let_def)

lemma getHostList_state:
  "snd (getHostList s) = s \<or> snd (getHostList s) = readTree s"
  by (simp add: getHostList_def getChildren_def Let_def split_beta)

lemma getHostList_built:
  assumes "remotesTree s = None \<or> (\<exists>s0. remotesTree s = remotesTree (readTree s0))"
    and "h \<in> set (fst (getHostList s))"
  shows "\<exists>q. h = hostItem q"
proof -
  obtain s1 where "fst (getHostList s) = fst (getHostList (readTree s1))"
    using assms(1)
  proof
    assume "remotesTree s = None"
    then show ?thesis using that [of s] by (simp add: getHostList_fresh)
  next
    assume "\<exists>s0. remotesTree s = remotesTree (readTree s0)"
    then obtain s0 where "remotesTree s = remotesTree (readTree s0)" ..
    then show ?thesis using that [of s0]
      by (simp add: getHostList_def getChildren_def remotesTree_readTree Let_def)
  qed
  then show ?thesis
    using assms(2) by (auto simp: getHostList_readTree split: option.splits)
qed

lemma effectiveToken_nonempty: "effectiveToken t \<noteq> TokenString []"
  by (cases t rule: falsy_setting.cases) (simp_all add: effectiveToken_def)

section \<open>Properties of the resolver\<close>


lemma resolveHost_state:
  assumes "resolveHost l s = (x, s')"
  shows "inputBox s' = inputBox s \<and> shown s' = shown s"
proof -
  have "s' = snd (getHostList s)"
    using assms by (auto simp: resolveHost_def split_beta Let_def split: list.splits)
  then show ?thesis
    using getHostList_state [of s] by (auto simp: readTree_other)
qed

lemma resolveHost_member:
  assumes "resolveHost l s = (Inr h, s')"
  shows "h \<in> set (fst (getHostList s))"
proof -
  have "filter (\<lambda>h. PlainHostItem.label h = StringLabel l) (fst (getHostList s)) \<noteq> []
      \<and> h = hd (filter (\<lambda>h. PlainHostItem.label h = StringLabel l) (fst (getHostList s)))"
    using assms by (auto simp: resolveHost_def split_beta Let_def split: list.splits)
  then have "h \<in> set (filter (\<lambda>h. PlainHostItem.label h = StringLabel l) (fst (getHostList s)))"
    using hd_in_set by blast
  then show ?thesis by simp
qed

lemma resolveAuthority_configured:
  assumes "resolveHost n s = (Inr h, s')"
  shows "resolveAuthority \<lparr>HostInfo.type = Configured, host = n, port = p\<rparr> s =
    (case PlainHostItem.connectionToken h of
       TokenBool b \<Rightarrow>
         if \<not> b then (Inr \<lparr>ResolvedAuthority.host = PlainHostItem.host h,
                         port = Some (PlainHostItem.port h), connectionToken = None\<rparr>, s')
         else if falsy (inputBox s' (shown s'))
           then (Inl (Error (js ''no token specified'')), s'\<lparr>shown := Suc (shown s')\<rparr>)
           else (Inr \<lparr>ResolvedAuthority.host = PlainHostItem.host h,
                      port = Some (PlainHostItem.port h),
                      connectionToken = inputBox s' (shown s')\<rparr>, s'\<lparr>shown := Suc (shown s')\<rparr>)
     | TokenString t \<Rightarrow>
         (Inr \<lparr>ResolvedAuthority.host = PlainHostItem.host h,
               port = Some (PlainHostItem.port h), connectionToken = Some t\<rparr>, s'))"
  using assms by (simp add: resolveAuthority_def pickToken_def Let_def split: token_setting.splits)

lemmas run_defs = initial_def rawHost_def readTree_def readHost_def addHost_def hostItem_def
      newPlainHostItem_def effectiveToken_def getHostList_def getChildren_def
      resolveAuthority_def resolveHost_def pickToken_def js_def Let_def

section \<open>Properties of the codec\<close>

subsection \<open>Base64\<close>

lemmas no_push = of_nat_add of_nat_mult of_nat_numeral of_nat_diff

lemma unat_byte_lt: "unat (a :: byte) < 256"
  using unsigned_less [of a, where 'a = nat] by simp

lemma unat_of_nat16: "n < 65536 \<Longrightarrow> unat (of_nat n :: 16 word) = n"
  by (simp add: unat_of_nat)

lemma unat_of_nat8: "n < 256 \<Longrightarrow> unat (of_nat n :: 8 word) = n"
  by (simp add: unat_of_nat)

lemma unat_base64_char:
  "n < 64 \<Longrightarrow> unat (base64_char n) =
     (if n < 26 then 0x41 + n else if n < 52 then 0x61 + (n - 26)
      else if n < 62 then 0x30 + (n - 52) else if n = 62 then 0x2B else 0x2F)"
  by (simp add: base64_char_def unat_of_nat16 del: no_push)

lemma unat_low_byte: "unat (ucast (c :: 16 word) :: byte) = unat c mod 256"
  by (simp add: unsigned_ucast_eq take_bit_eq_mod)

lemma unbase64_alt:
  "unbase64 c =
     (if 0x41 \<le> unat c \<and> unat c \<le> 0x5A then Some (unat c - 0x41)
      else if 0x61 \<le> unat c \<and> unat c \<le> 0x7A then Some (unat c - 0x61 + 26)
      else if 0x30 \<le> unat c \<and> unat c \<le> 0x39 then Some (unat c - 0x30 + 52)
      else if unat c = 0x2B \<or> unat c = 0x2D then Some 62
      else if unat c = 0x2F \<or> unat c = 0x5F then Some 63
      else None)"
  by (simp add: unbase64_def word_le_nat_alt word_unat_eq_iff)

lemma unat_low_base64_char:
  "n < 64 \<Longrightarrow> unat (ucast (base64_char n) :: byte) = unat (base64_char n)"
  by (simp add: unat_low_byte unat_base64_char)

lemma base64_char_valid:
  assumes "n < 64"
  shows "unbase64 (ucast (base64_char n)) = Some n" and "ucast (base64_char n) \<noteq> (0x3D :: byte)"
proof -
  show "unbase64 (ucast (base64_char n)) = Some n"
    using assms by (auto simp: unbase64_alt unat_low_base64_char unat_base64_char)
  have "unat (ucast (base64_char n) :: byte) \<noteq> 0x3D"
    using assms by (auto simp: unat_low_base64_char unat_base64_char)
  then show "ucast (base64_char n) \<noteq> (0x3D :: byte)"
    by (auto simp: word_unat_eq_iff)
qed

lemma sextets_Cons:
  "n < 64 \<Longrightarrow> sextets (base64_char n # s) = n # sextets s"
  by (simp add: sextets_def base64_char_valid List.map_filter_simps)

lemma sextets_pad: "sextets (0x3D # s) = []"
  by (simp add: sextets_def List.map_filter_simps)

lemma sextets_Nil: "sextets [] = []"
  by (simp add: sextets_def List.map_filter_simps)

lemma regroup1: "y < 256 \<Longrightarrow> (x div 4) * 4 + (x mod 4 * 16 + y div 16) div 16 = (x::nat)"
  by (simp add: add.commute)

lemma regroup2:
  "y < 256 \<Longrightarrow> z < 256 \<Longrightarrow>
   (x mod 4 * 16 + y div 16) mod 16 * 16 + (y mod 16 * 4 + z div 64) div 4 = (y::nat)"
  by (simp add: add.commute)

lemma regroup3: "z < 256 \<Longrightarrow> (y mod 16 * 4 + z div 64) mod 4 * 64 + z mod 64 = (z::nat)"
  by (simp add: add.commute)

lemma regroup4:
  "y < 256 \<Longrightarrow> (x mod 4 * 16 + y div 16) mod 16 * 16 + (y mod 16 * 4) div 4 = (y::nat)"
  by (simp add: add.commute)

lemma regroup5: "(x div 4) * 4 + (x mod 4 * 16) div 16 = (x::nat)"
  by (simp add: add.commute)

lemma sextet_bounds:
  fixes x y z :: nat
  assumes "x < 256" "y < 256" "z < 256"
  shows "x div 4 < 64" "x mod 4 * 16 + y div 16 < 64" "y mod 16 * 4 + z div 64 < 64"
    "z mod 64 < 64" "x mod 4 * 16 < 64" "y mod 16 * 4 < 64"
  using assms by auto

lemma base64_decode_encode: "base64_decode (base64_encode bs) = bs"
proof (induction bs rule: base64_encode.induct)
  case 1
  show ?case by (simp add: base64_decode_def sextets_Nil)
next
  case (2 a)
  note bd = sextet_bounds [OF unat_byte_lt [of a] unat_byte_lt [of a] unat_byte_lt [of a]]
  have "sextets (base64_encode [a]) = [unat a div 4, unat a mod 4 * 16]"
    by (simp add: sextets_Cons sextets_pad bd)
  moreover have "base64_bytes [unat a div 4, unat a mod 4 * 16]
      = [of_nat (unat a div 4 * 4 + unat a mod 4 * 16 div 16)]"
    by (simp only: base64_bytes.simps)
  moreover have "unat a div 4 * 4 + unat a mod 4 * 16 div 16 = unat a"
    by (rule regroup5)
  ultimately show ?case
    by (simp add: base64_decode_def del: no_push)
next
  case (3 a b)
  note bd = sextet_bounds [OF unat_byte_lt [of a] unat_byte_lt [of b] unat_byte_lt [of b]]
  have "sextets (base64_encode [a, b])
      = [unat a div 4, unat a mod 4 * 16 + unat b div 16, unat b mod 16 * 4]"
    by (simp add: sextets_Cons sextets_pad bd)
  moreover have "base64_bytes [unat a div 4, unat a mod 4 * 16 + unat b div 16, unat b mod 16 * 4]
      = [of_nat (unat a div 4 * 4 + (unat a mod 4 * 16 + unat b div 16) div 16),
         of_nat ((unat a mod 4 * 16 + unat b div 16) mod 16 * 16 + unat b mod 16 * 4 div 4)]"
    by (simp only: base64_bytes.simps)
  moreover have "unat a div 4 * 4 + (unat a mod 4 * 16 + unat b div 16) div 16 = unat a"
    by (rule regroup1 [OF unat_byte_lt])
  moreover have "(unat a mod 4 * 16 + unat b div 16) mod 16 * 16 + unat b mod 16 * 4 div 4 = unat b"
    by (rule regroup4 [OF unat_byte_lt])
  ultimately show ?case
    by (simp add: base64_decode_def del: no_push)
next
  case (4 a b c rest)
  note bd = sextet_bounds [OF unat_byte_lt [of a] unat_byte_lt [of b] unat_byte_lt [of c]]
  have "sextets (base64_encode (a # b # c # rest)) =
      unat a div 4 # (unat a mod 4 * 16 + unat b div 16)
        # (unat b mod 16 * 4 + unat c div 64) # unat c mod 64 # sextets (base64_encode rest)"
    by (simp add: sextets_Cons bd)
  moreover have "base64_bytes (unat a div 4 # (unat a mod 4 * 16 + unat b div 16)
        # (unat b mod 16 * 4 + unat c div 64) # unat c mod 64 # sextets (base64_encode rest))
      = [of_nat (unat a div 4 * 4 + (unat a mod 4 * 16 + unat b div 16) div 16),
         of_nat ((unat a mod 4 * 16 + unat b div 16) mod 16 * 16
                  + (unat b mod 16 * 4 + unat c div 64) div 4),
         of_nat ((unat b mod 16 * 4 + unat c div 64) mod 4 * 64 + unat c mod 64)]
        @ base64_bytes (sextets (base64_encode rest))"
    by (simp only: base64_bytes.simps)
  moreover have "unat a div 4 * 4 + (unat a mod 4 * 16 + unat b div 16) div 16 = unat a"
    by (rule regroup1 [OF unat_byte_lt])
  moreover have "(unat a mod 4 * 16 + unat b div 16) mod 16 * 16
                  + (unat b mod 16 * 4 + unat c div 64) div 4 = unat b"
    by (rule regroup2 [OF unat_byte_lt unat_byte_lt])
  moreover have "(unat b mod 16 * 4 + unat c div 64) mod 4 * 64 + unat c mod 64 = unat c"
    by (rule regroup3 [OF unat_byte_lt])
  ultimately show ?case
    using 4 by (simp add: base64_decode_def del: no_push)
qed

lemma base64_char_plain: "n < 64 \<Longrightarrow> \<not> line_terminator (base64_char n)"
  by (auto simp: line_terminator_def word_unat_eq_iff unat_base64_char)

lemma base64_encode_plain: "c \<in> set (base64_encode bs) \<Longrightarrow> \<not> line_terminator c"
proof (induction bs rule: base64_encode.induct)
  case 1
  then show ?case by simp
next
  case (2 a)
  note b = sextet_bounds [OF unat_byte_lt [of a] unat_byte_lt [of a] unat_byte_lt [of a]]
  from 2 show ?case
    using base64_char_plain b by (auto simp: line_terminator_def)
next
  case (3 a b)
  note bd = sextet_bounds [OF unat_byte_lt [of a] unat_byte_lt [of b] unat_byte_lt [of b]]
  from 3 show ?case
    using base64_char_plain bd by (auto simp: line_terminator_def)
next
  case (4 a b c rest)
  note bd = sextet_bounds [OF unat_byte_lt [of a] unat_byte_lt [of b] unat_byte_lt [of c]]
  from 4 show ?case
    using base64_char_plain bd by auto
qed

subsection \<open>UTF-8\<close>

lemma unat_unit_lt: "unat (c :: 16 word) < 65536"
  using unsigned_less [of c, where 'a = nat] by simp

lemma is_high_alt: "is_high c \<longleftrightarrow> 0xD800 \<le> unat c \<and> unat c \<le> 0xDBFF"
  by (simp add: is_high_def word_le_nat_alt)

lemma is_low_alt: "is_low c \<longleftrightarrow> 0xDC00 \<le> unat c \<and> unat c \<le> 0xDFFF"
  by (simp add: is_low_def word_le_nat_alt)

lemma continuation_alt: "continuation b \<longleftrightarrow> 0x80 \<le> unat b \<and> unat b \<le> 0xBF"
  by (simp add: continuation_def word_le_nat_alt)

lemma second_ok_alt:
  "second_ok b c =
     (if unat b = 0xE0 then 0xA0 \<le> unat c \<and> unat c \<le> 0xBF
      else if unat b = 0xED then 0x80 \<le> unat c \<and> unat c \<le> 0x9F
      else if unat b = 0xF0 then 0x90 \<le> unat c \<and> unat c \<le> 0xBF
      else if unat b = 0xF4 then 0x80 \<le> unat c \<and> unat c \<le> 0x8F
      else 0x80 \<le> unat c \<and> unat c \<le> 0xBF)"
  by (simp add: second_ok_def continuation_alt word_le_nat_alt word_unat_eq_iff)

lemma utf8_decode_1:
  assumes "unat b < 0x80"
  shows "utf8_decode (b # bs) = code_units (unat b) @ utf8_decode bs"
  using assms by (simp add: word_less_nat_alt)

lemma utf8_decode_2:
  assumes "0xC2 \<le> unat b" "unat b \<le> 0xDF" "0x80 \<le> unat c" "unat c \<le> 0xBF"
  shows "utf8_decode (b # c # bs)
     = code_units ((unat b - 0xC0) * 64 + (unat c - 0x80)) @ utf8_decode bs"
  using assms by (simp add: word_less_nat_alt word_le_nat_alt continuation_alt)

lemma utf8_decode_3:
  assumes "0xE0 \<le> unat b" "unat b \<le> 0xEF" "second_ok b c"
    "0x80 \<le> unat d" "unat d \<le> 0xBF"
  shows "utf8_decode (b # c # d # bs)
     = code_units ((unat b - 0xE0) * 4096 + (unat c - 0x80) * 64 + (unat d - 0x80))
       @ utf8_decode bs"
  using assms by (simp add: word_less_nat_alt word_le_nat_alt continuation_alt)

lemma utf8_decode_4:
  assumes "0xF0 \<le> unat b" "unat b \<le> 0xF4" "second_ok b c"
    "0x80 \<le> unat d" "unat d \<le> 0xBF" "0x80 \<le> unat e" "unat e \<le> 0xBF"
  shows "utf8_decode (b # c # d # e # bs)
     = code_units ((unat b - 0xF0) * 262144 + (unat c - 0x80) * 4096
                   + (unat d - 0x80) * 64 + (unat e - 0x80))
       @ utf8_decode bs"
  using assms by (simp add: word_less_nat_alt word_le_nat_alt continuation_alt)

lemma split2: "n < 0x800 \<Longrightarrow> n div 64 * 64 + n mod 64 = (n::nat)"
  by simp

lemma split3: "n div 4096 * 4096 + n div 64 mod 64 * 64 + n mod 64 = (n::nat)"
proof -
  have e: "n div 4096 = n div 64 div 64" by (simp add: div_mult2_eq [symmetric])
  have "n div 64 div 64 * 64 + n div 64 mod 64 = n div 64" by simp
  then have "(n div 4096 * 64 + n div 64 mod 64) * 64 + n mod 64 = n" by (simp add: e)
  then show ?thesis by (simp add: algebra_simps)
qed

lemma split4:
  "n div 262144 * 262144 + n div 4096 mod 64 * 4096 + n div 64 mod 64 * 64 + n mod 64 = (n::nat)"
proof -
  have e: "n div 262144 = n div 4096 div 64" by (simp add: div_mult2_eq [symmetric])
  have "n div 4096 div 64 * 64 + n div 4096 mod 64 = n div 4096" by simp
  then have "(n div 262144 * 64 + n div 4096 mod 64) * 4096 = n div 4096 * 4096" by (simp add: e)
  then have "n div 262144 * 262144 + n div 4096 mod 64 * 4096 = n div 4096 * 4096"
    by (simp add: algebra_simps)
  then show ?thesis using split3 [of n] by simp
qed

lemma mid_mod: "(n::nat) div 64 mod 64 = n div 64 - n div 4096 * 64"
proof -
  have "n div 64 div 64 = n div 4096" by (simp add: div_mult2_eq [symmetric])
  then show ?thesis by (simp add: modulo_nat_def)
qed
lemma hi_mod: "(n::nat) div 4096 mod 64 = n div 4096 - n div 262144 * 64"
proof -
  have "n div 4096 div 64 = n div 262144" by (simp add: div_mult2_eq [symmetric])
  then show ?thesis by (simp add: modulo_nat_def)
qed
lemma second_E0: "2048 \<le> n \<Longrightarrow> n div 4096 = 0 \<Longrightarrow> 32 \<le> (n::nat) div 64 mod 64"
  by (simp add: mid_mod) 
lemma second_ED: "n < 55296 \<Longrightarrow> n div 4096 = 13 \<Longrightarrow> (n::nat) div 64 mod 64 \<le> 31"
  by (simp add: mid_mod) 
lemma second_F0: "65536 \<le> n \<Longrightarrow> n div 262144 = 0 \<Longrightarrow> 16 \<le> (n::nat) div 4096 mod 64"
  by (simp add: hi_mod)
lemma second_F4: "n < 1114112 \<Longrightarrow> n div 262144 = 4 \<Longrightarrow> (n::nat) div 4096 mod 64 \<le> 15"
  by (simp add: hi_mod)

lemma utf8_decode_bytes:
  assumes "n < 0x110000" and "n < 0xD800 \<or> 0xDFFF < n"
  shows "utf8_decode (utf8_bytes n @ bs) = code_units n @ utf8_decode bs"
proof -
  consider "n < 0x80" | "0x80 \<le> n" "n < 0x800" | "0x800 \<le> n" "n < 0x10000" | "0x10000 \<le> n"
    by linarith
  then show ?thesis
  proof cases
    case 1
    then have "unat (of_nat n :: byte) = n" by (simp add: unat_of_nat8)
    then show ?thesis
      using 1 utf8_decode_1 [of "of_nat n" bs] by (simp add: utf8_bytes_def del: no_push)
  next
    case 2
    let ?b = "of_nat (0xC0 + n div 64) :: byte" and ?c = "of_nat (0x80 + n mod 64) :: byte"
    have b: "unat ?b = 0xC0 + n div 64" using 2 by (simp add: unat_of_nat8 del: no_push)
    have c: "unat ?c = 0x80 + n mod 64" by (simp add: unat_of_nat8 del: no_push)
    have "0xC2 \<le> unat ?b" "unat ?b \<le> 0xDF" "0x80 \<le> unat ?c" "unat ?c \<le> 0xBF"
      using 2 unfolding b c by simp_all
    from utf8_decode_2 [OF this, of bs] show ?thesis
      using 2 by (simp add: utf8_bytes_def b c split2 del: no_push)
  next
    case 3
    let ?b = "of_nat (0xE0 + n div 4096) :: byte"
    let ?c = "of_nat (0x80 + n div 64 mod 64) :: byte"
    let ?d = "of_nat (0x80 + n mod 64) :: byte"
    have b: "unat ?b = 0xE0 + n div 4096" using 3 by (simp add: unat_of_nat8 del: no_push)
    have c: "unat ?c = 0x80 + n div 64 mod 64" by (simp add: unat_of_nat8 del: no_push)
    have d: "unat ?d = 0x80 + n mod 64" by (simp add: unat_of_nat8 del: no_push)
    have r: "0xE0 \<le> unat ?b" "unat ?b \<le> 0xEF" "0x80 \<le> unat ?d" "unat ?d \<le> 0xBF"
      using 3 unfolding b d by simp_all
    have s: "second_ok ?b ?c"
      unfolding second_ok_alt b c using 3 assms(2) second_E0 [of n] second_ED [of n] by auto
    from utf8_decode_3 [OF r(1,2) s r(3,4), of bs] show ?thesis
      using 3 split3 [of n] by (simp add: utf8_bytes_def b c d del: no_push)
  next
    case 4
    let ?b = "of_nat (0xF0 + n div 262144) :: byte"
    let ?c = "of_nat (0x80 + n div 4096 mod 64) :: byte"
    let ?d = "of_nat (0x80 + n div 64 mod 64) :: byte"
    let ?e = "of_nat (0x80 + n mod 64) :: byte"
    have b: "unat ?b = 0xF0 + n div 262144"
      using assms(1) by (simp add: unat_of_nat8 del: no_push)
    have c: "unat ?c = 0x80 + n div 4096 mod 64" by (simp add: unat_of_nat8 del: no_push)
    have d: "unat ?d = 0x80 + n div 64 mod 64" by (simp add: unat_of_nat8 del: no_push)
    have e: "unat ?e = 0x80 + n mod 64" by (simp add: unat_of_nat8 del: no_push)
    have r: "0xF0 \<le> unat ?b" "unat ?b \<le> 0xF4" "0x80 \<le> unat ?d" "unat ?d \<le> 0xBF"
      "0x80 \<le> unat ?e" "unat ?e \<le> 0xBF"
      using assms(1) unfolding b d e by simp_all
    have s: "second_ok ?b ?c"
      unfolding second_ok_alt b c using 4 assms(1) second_F0 [of n] second_F4 [of n] by auto
    from utf8_decode_4 [OF r(1,2) s r(3-6), of bs] show ?thesis
      using 4 split4 [of n] by (simp add: utf8_bytes_def b c d e del: no_push)
  qed
qed

lemma code_units_unit:
  "code_units (unat (c :: 16 word)) = [c]"
  using unat_unit_lt [of c] by (simp add: code_units_def)

lemma code_units_pair:
  assumes "is_high c" "is_low d"
  shows "code_units (0x10000 + (unat c - 0xD800) * 1024 + (unat d - 0xDC00)) = [c, d]"
proof -
  let ?n = "0x10000 + (unat c - 0xD800) * 1024 + (unat d - 0xDC00)"
  have d: "unat d - 0xDC00 < 1024" and c: "0xD800 \<le> unat c" and d': "0xDC00 \<le> unat d"
    using assms by (auto simp: is_high_alt is_low_alt)
  have "(?n - 0x10000) div 1024 = unat c - 0xD800"
    using d by simp
  moreover have "(?n - 0x10000) mod 1024 = unat d - 0xDC00"
    using d by simp
  moreover have "\<not> ?n < 0x10000" by simp
  ultimately have "code_units ?n = [of_nat (0xD800 + (unat c - 0xD800)), of_nat (0xDC00 + (unat d - 0xDC00))]"
    unfolding code_units_def by (simp only: if_False)
  also have "\<dots> = [c, d]"
    using c d' by (simp del: no_push)
  finally show ?thesis .
qed

lemma pair_scalar:
  assumes "is_high c" "is_low d"
  shows "0x10000 + (unat c - 0xD800) * 1024 + (unat d - 0xDC00) < 0x110000"
    and "0x10000 + (unat c - 0xD800) * 1024 + (unat d - 0xDC00) < 0xD800
         \<or> 0xDFFF < 0x10000 + (unat c - 0xD800) * 1024 + (unat d - 0xDC00)"
  using assms by (auto simp: is_high_alt is_low_alt)

lemma unit_scalar:
  assumes "\<not> is_high c" "\<not> is_low c"
  shows "unat c < 0x110000" and "unat c < 0xD800 \<or> 0xDFFF < unat c"
  using assms unat_unit_lt [of c] by (auto simp: is_high_alt is_low_alt)

lemma utf8_decode_encode:
  "well_formed s \<Longrightarrow> utf8_decode (utf8_encode s) = s"
proof (induction s rule: utf8_encode.induct)
  case 1
  show ?case by simp
next
  case (2 c)
  then have "\<not> is_high c" "\<not> is_low c" by simp_all
  from utf8_decode_bytes [OF unit_scalar [OF this], of "[]"] this show ?case
    by (simp add: code_units_unit)
next
  case (3 c d cs)
  show ?case
  proof (cases "is_high c \<and> is_low d")
    case True
    then have h: "is_high c" "is_low d" by simp_all
    from True 3 have "utf8_decode (utf8_encode cs) = cs" by simp
    with utf8_decode_bytes [OF pair_scalar [OF h], of "utf8_encode cs"] True show ?thesis
      by (simp add: code_units_pair [OF h] del: no_push)
  next
    case False
    with 3(4) have n: "\<not> is_high c" "\<not> is_low c" and w: "well_formed (d # cs)" by simp_all
    from 3(3) False n w have "utf8_decode (utf8_encode (d # cs)) = d # cs" by simp
    with utf8_decode_bytes [OF unit_scalar [OF n], of "utf8_encode (d # cs)"] False n show ?thesis
      by (simp add: code_units_unit)
  qed
qed

subsection \<open>Strings and numbers of JSON\<close>

lemma hex_value_alt:
  "hex_value c =
     (if 0x30 \<le> unat c \<and> unat c \<le> 0x39 then Some (unat c - 0x30)
      else if 0x61 \<le> unat c \<and> unat c \<le> 0x66 then Some (unat c - 0x61 + 10)
      else if 0x41 \<le> unat c \<and> unat c \<le> 0x46 then Some (unat c - 0x41 + 10)
      else None)"
  by (simp add: hex_value_def word_le_nat_alt)

lemma unat_hex_digit:
  "n < 16 \<Longrightarrow> unat (hex_digit n) = (if n < 10 then 0x30 + n else 0x61 + (n - 10))"
  by (simp add: hex_digit_def unat_of_nat16 del: no_push)

lemma hex_value_digit: "n < 16 \<Longrightarrow> hex_value (hex_digit n) = Some n"
  by (auto simp: hex_value_alt unat_hex_digit)

lemma nibbles:
  "n div 4096 * 4096 + n div 256 mod 16 * 256 + n div 16 mod 16 * 16 + n mod 16 = (n::nat)"
proof -
  have e: "n div 256 = n div 16 div 16" "n div 4096 = n div 256 div 16"
    by (simp_all add: div_mult2_eq [symmetric])
  have "n div 16 div 16 * 16 + n div 16 mod 16 = n div 16" by simp
  then have "(n div 256 * 16 + n div 16 mod 16) * 16 + n mod 16 = n" by (simp add: e(1))
  then have a: "n div 256 * 256 + n div 16 mod 16 * 16 + n mod 16 = n" by (simp add: algebra_simps)
  have "n div 256 div 16 * 16 + n div 256 mod 16 = n div 256" by simp
  then have "(n div 4096 * 16 + n div 256 mod 16) * 256 = n div 256 * 256" by (simp add: e(2))
  then have "n div 4096 * 4096 + n div 256 mod 16 * 256 = n div 256 * 256"
    by (simp add: algebra_simps)
  with a show ?thesis by simp
qed

lemma hex4_escape:
  "hex4 (hex_digit (unat c div 4096)) (hex_digit (unat c div 256 mod 16))
        (hex_digit (unat c div 16 mod 16)) (hex_digit (unat c mod 16)) = Some c"
proof -
  have "unat c div 4096 < 16"
    using unat_unit_lt [of c] by simp
  then show ?thesis
    using nibbles [of "unat c"]
    by (simp add: hex4_def hex_value_digit del: no_push)
qed

lemma parse_string_escape:
  "parse_string (unicode_escape c @ t) = cons_unit c (parse_string t)"
  by (simp add: unicode_escape_def hex4_escape)

lemma parse_string_unit:
  "parse_string (quote_unit c @ t) = cons_unit c (parse_string t)"
proof -
  consider "c = 0x08" | "c = 0x09" | "c = 0x0A" | "c = 0x0C" | "c = 0x0D" | "c = 0x22" | "c = 0x5C"
    | "c \<noteq> 0x08" "c \<noteq> 0x09" "c \<noteq> 0x0A" "c \<noteq> 0x0C" "c \<noteq> 0x0D" "c \<noteq> 0x22" "c \<noteq> 0x5C"
      "c < 0x20 \<or> is_high c \<or> is_low c"
    | "c \<noteq> 0x08" "c \<noteq> 0x09" "c \<noteq> 0x0A" "c \<noteq> 0x0C" "c \<noteq> 0x0D" "c \<noteq> 0x22" "c \<noteq> 0x5C"
      "\<not> (c < 0x20 \<or> is_high c \<or> is_low c)"
    by blast
  then show ?thesis
  proof cases
    case 8
    then show ?thesis by (simp add: quote_unit_def parse_string_escape)
  next
    case 9
    then show ?thesis by (simp add: quote_unit_def)
  qed (simp_all add: quote_unit_def unescape_def)
qed

lemma parse_string_pair:
  assumes "is_high c" "is_low d"
  shows "parse_string (c # d # t) = cons_unit c (cons_unit d (parse_string t))"
proof -
  have "unat c \<noteq> 0x22" "unat c \<noteq> 0x5C" "\<not> unat c < 0x20"
    "unat d \<noteq> 0x22" "unat d \<noteq> 0x5C" "\<not> unat d < 0x20"
    using assms by (auto simp: is_high_alt is_low_alt)
  then have "c \<noteq> 0x22" "c \<noteq> 0x5C" "\<not> c < 0x20" "d \<noteq> 0x22" "d \<noteq> 0x5C" "\<not> d < 0x20"
    by (auto simp: word_less_nat_alt)
  then show ?thesis by simp
qed

lemma parse_string_quote:
  "parse_string (quote_units s @ 0x22 # rest) = Some (s, rest)"
proof (induction s rule: quote_units.induct)
  case 1
  show ?case by simp
next
  case (2 c)
  show ?case by (simp add: parse_string_unit cons_unit_def del: parse_string.simps(2)) simp
next
  case (3 c d cs)
  show ?case
  proof (cases "is_high c \<and> is_low d")
    case True
    with 3 show ?thesis
      by (simp add: parse_string_pair cons_unit_def del: parse_string.simps)
  next
    case False
    then have "quote_units (c # d # cs) = quote_unit c @ quote_units (d # cs)" by auto
    moreover from False 3 have "parse_string (quote_units (d # cs) @ 0x22 # rest) = Some (d # cs, rest)"
      by blast
    ultimately show ?thesis
      by (simp add: parse_string_unit cons_unit_def del: parse_string.simps quote_units.simps)
  qed
qed

lemma is_digit_alt: "is_digit c \<longleftrightarrow> 0x30 \<le> unat c \<and> unat c \<le> 0x39"
  by (simp add: is_digit_def word_le_nat_alt)

lemma unat_digit: "d < 10 \<Longrightarrow> unat (of_nat (0x30 + d) :: 16 word) = 0x30 + d"
  by (simp add: unat_of_nat16 del: no_push)

lemma is_digit_of_nat: "d < 10 \<Longrightarrow> is_digit (of_nat (0x30 + d))"
  by (simp add: is_digit_alt unat_digit del: no_push)

lemma digits_of_digits: "c \<in> set (digits_of n) \<Longrightarrow> is_digit c"
proof (induction n arbitrary: c rule: digits_of.induct)
  case (1 n)
  show ?case
  proof (cases "n < 10")
    case True
    with 1(2) show ?thesis
      by (simp add: digits_of.simps [of n] is_digit_of_nat del: no_push)
  next
    case False
    with 1 show ?thesis
      by (auto simp: digits_of.simps [of n] is_digit_of_nat simp del: no_push)
  qed
qed

lemma decimal_snoc: "decimal (ds @ [c]) = 10 * decimal ds + (unat c - 0x30)"
  by (simp add: decimal_def)

lemma decimal_digits_of: "decimal (digits_of n) = n"
proof (induction n rule: digits_of.induct)
  case (1 n)
  show ?case
  proof (cases "n < 10")
    case True
    then show ?thesis
      by (simp add: digits_of.simps [of n] decimal_def unat_digit del: no_push)
  next
    case False
    with 1 show ?thesis
      by (simp add: digits_of.simps [of n] decimal_snoc unat_digit del: no_push)
  qed
qed

lemma digits_of_nonempty: "digits_of n \<noteq> []"
  by (simp add: digits_of.simps [of n])

lemma hd_digits_of: "0 < n \<Longrightarrow> hd (digits_of n) \<noteq> 0x30"
proof (induction n rule: digits_of.induct)
  case (1 n)
  show ?case
  proof (cases "n < 10")
    case True
    with 1(2) have "unat (of_nat (0x30 + n) :: 16 word) \<noteq> 0x30"
      by (simp add: unat_digit del: no_push)
    then have "(of_nat (0x30 + n) :: 16 word) \<noteq> 0x30"
      by (auto simp del: no_push)
    with True show ?thesis
      by (simp add: digits_of.simps [of n] del: no_push)
  next
    case False
    then have "0 < n div 10" by simp
    with 1(1) False have "hd (digits_of (n div 10)) \<noteq> 0x30" by simp
    with False show ?thesis
      by (simp add: digits_of.simps [of n] digits_of_nonempty del: no_push)
  qed
qed

lemma takeWhile_digits:
  assumes "\<forall>c \<in> set ds. is_digit c" and "\<not> is_digit x"
  shows "takeWhile is_digit (ds @ x # r) = ds" and "dropWhile is_digit (ds @ x # r) = x # r"
  using assms by (simp_all add: takeWhile_append2 dropWhile_append2)

lemma not_digit_brace: "\<not> is_digit 0x7D"
  by (simp add: is_digit_def)

lemma parse_int_part_digits:
  "parse_int_part (digits_of n @ 0x7D # r) = Some (n, 0x7D # r)"
proof (cases "n = 0")
  case True
  have "digits_of 0 = [0x30]" by (simp add: digits_of.simps [of 0])
  with True show ?thesis
    by (simp add: parse_int_part_def)
next
  case False
  obtain c cs where ds: "digits_of n = c # cs"
    using digits_of_nonempty [of n] by (cases "digits_of n") auto
  have c: "c \<noteq> 0x30" "is_digit c"
    using hd_digits_of [of n] False digits_of_digits [of c n] ds by auto
  have all: "\<forall>c \<in> set (digits_of n). is_digit c"
    using digits_of_digits by blast
  have "parse_int_part (digits_of n @ 0x7D # r)
      = Some (decimal (takeWhile is_digit (digits_of n @ 0x7D # r)),
              dropWhile is_digit (digits_of n @ 0x7D # r))"
    using c by (simp add: parse_int_part_def ds)
  then show ?thesis
    by (simp only: takeWhile_digits [OF all not_digit_brace] decimal_digits_of)
qed

lemma parse_number_digits:
  "parse_number (Number_toString p @ 0x7D # r) = Some (of_int p, 0x7D # r)"
proof (cases "p < 0")
  case True
  have "parse_number (0x2D # digits_of (nat (- p)) @ 0x7D # r)
      = Some (- of_nat (nat (- p)), 0x7D # r)"
    by (simp add: parse_number_def parse_int_part_digits parse_fraction_def parse_exponent_def)
  then show ?thesis
    using True by (simp add: Number_toString_def)
next
  case False
  obtain c cs where ds: "digits_of (nat p) = c # cs"
    using digits_of_nonempty [of "nat p"] by (cases "digits_of (nat p)") auto
  have "is_digit c" using digits_of_digits [of c "nat p"] ds by simp
  then have c: "c \<noteq> 0x2D" by (auto simp: is_digit_def)
  have "parse_int_part (c # cs @ 0x7D # r) = Some (nat p, 0x7D # r)"
    using parse_int_part_digits [of "nat p" r] ds by simp
  then have "parse_number (c # cs @ 0x7D # r) = Some (of_nat (nat p), 0x7D # r)"
    using c by (simp add: parse_number_def parse_fraction_def parse_exponent_def)
  then show ?thesis
    using False ds by (simp add: Number_toString_def)
qed

subsection \<open>Parsing what \<open>JSON.stringify\<close> wrote\<close>

lemma skip_ws_Cons: "\<not> is_ws c \<Longrightarrow> skip_ws (c # r) = c # r"
  by (simp add: skip_ws_def)

lemma skip_ws_Nil: "skip_ws [] = []"
  by (simp add: skip_ws_def)

lemma not_ws: "\<not> is_ws 0x22" "\<not> is_ws 0x3A" "\<not> is_ws 0x2C" "\<not> is_ws 0x7D" "\<not> is_ws 0x7B"
  by (simp_all add: is_ws_def)

lemma parse_value_string:
  "parse_value (Suc n) (0x22 # quote_units v @ 0x22 # rest) = Parsed (JString v) rest"
  by (simp add: skip_ws_Cons not_ws parse_string_quote)

lemma Number_toString_Cons:
  "\<exists>c cs. Number_toString p = c # cs \<and> (c = 0x2D \<or> is_digit c)"
proof (cases "p < 0")
  case True
  then show ?thesis by (simp add: Number_toString_def)
next
  case False
  obtain c cs where ds: "digits_of (nat p) = c # cs"
    using digits_of_nonempty [of "nat p"] by (cases "digits_of (nat p)") auto
  then have "is_digit c" using digits_of_digits [of c "nat p"] by simp
  with ds False show ?thesis by (simp add: Number_toString_def)
qed

lemma number_start:
  assumes "c = 0x2D \<or> is_digit c"
  shows "\<not> is_ws c" "c \<noteq> 0x7B" "c \<noteq> 0x5B" "c \<noteq> 0x22" "c \<noteq> 0x74" "c \<noteq> 0x66" "c \<noteq> 0x6E"
  using assms by (auto simp: is_digit_def is_ws_def)

lemma parse_value_number:
  "parse_value (Suc n) (Number_toString p @ 0x7D # rest) = Parsed (JNumber (of_int p)) (0x7D # rest)"
proof -
  obtain c cs where n: "Number_toString p = c # cs" and c: "c = 0x2D \<or> is_digit c"
    using Number_toString_Cons by blast
  have "parse_number (c # cs @ 0x7D # rest) = Some (of_int p, 0x7D # rest)"
    using parse_number_digits [of p rest] n by simp
  then show ?thesis
    using number_start [OF c] by (simp add: n skip_ws_Cons js_def)
qed

lemma parse_members_string:
  "parse_members (Suc (Suc n)) acc
     (0x22 # quote_units k @ 0x22 # 0x3A # 0x22 # quote_units v @ 0x22 # 0x2C # rest)
   = parse_members (Suc n) (acc @ [(k, JString v)]) rest"
  by (simp add: skip_ws_Cons not_ws parse_string_quote parse_value_string
      del: parse_value.simps parse_members.simps(2) [of "Suc n"])

lemma parse_members_string_last:
  "parse_members (Suc (Suc n)) acc
     (0x22 # quote_units k @ 0x22 # 0x3A # 0x22 # quote_units v @ 0x22 # 0x7D # rest)
   = Parsed (JObject (acc @ [(k, JString v)])) rest"
  by (simp add: skip_ws_Cons not_ws parse_string_quote parse_value_string
      del: parse_value.simps)

lemma parse_members_number_last:
  "parse_members (Suc (Suc n)) acc
     (0x22 # quote_units k @ 0x22 # 0x3A # Number_toString p @ 0x7D # rest)
   = Parsed (JObject (acc @ [(k, JNumber (of_int p))])) rest"
  by (simp add: skip_ws_Cons not_ws parse_string_quote parse_value_number
      del: parse_value.simps)

lemma punctuation:
  "js ''{'' = [0x7B]" "js ''}'' = [0x7D]" "js '':'' = [0x3A]" "js '','' = [0x2C]"
  by (simp_all add: js_def)

lemma JSON_stringify_shape:
  "JSON_stringify info =
     0x7B # 0x22 # quote_units (js ''type'') @ 0x22 # 0x3A
       # 0x22 # quote_units (type_string (HostInfo.type info)) @ 0x22 # 0x2C
       # 0x22 # quote_units (js ''host'') @ 0x22 # 0x3A
       # 0x22 # quote_units (HostInfo.host info) @ 0x22
       # (case HostInfo.port info of
            None \<Rightarrow> [0x7D]
          | Some p \<Rightarrow> 0x2C # 0x22 # quote_units (js ''port'') @ 0x22 # 0x3A
                        # Number_toString p @ [0x7D])"
  by (simp add: JSON_stringify_def QuoteJSONString_def punctuation split: option.splits)

lemma parse_value_stringify:
  "parse_value (Suc (Suc (Suc (Suc (Suc n))))) (JSON_stringify info @ rest)
     = Parsed (object_of info) rest"
proof (cases "HostInfo.port info")
  case None
  have "parse_value (Suc (Suc (Suc (Suc (Suc n))))) (JSON_stringify info @ rest)
    = parse_members (Suc (Suc (Suc (Suc n)))) []
       (0x22 # quote_units (js ''type'') @ 0x22 # 0x3A
       # 0x22 # quote_units (type_string (HostInfo.type info)) @ 0x22 # 0x2C
       # 0x22 # quote_units (js ''host'') @ 0x22 # 0x3A
       # 0x22 # quote_units (HostInfo.host info) @ 0x22 # 0x7D # rest)"
    using None
    by (simp add: JSON_stringify_shape skip_ws_Cons not_ws del: parse_members.simps)
  also have "\<dots> = parse_members (Suc (Suc (Suc n))) [(js ''type'', JString (type_string (HostInfo.type info)))]
       (0x22 # quote_units (js ''host'') @ 0x22 # 0x3A
       # 0x22 # quote_units (HostInfo.host info) @ 0x22 # 0x7D # rest)"
    by (simp only: parse_members_string append_Nil)
  also have "\<dots> = Parsed (object_of info) rest"
    using None by (simp only: parse_members_string_last object_of_def) simp
  finally show ?thesis .
next
  case (Some p)
  have "parse_value (Suc (Suc (Suc (Suc (Suc n))))) (JSON_stringify info @ rest)
    = parse_members (Suc (Suc (Suc (Suc n)))) []
       (0x22 # quote_units (js ''type'') @ 0x22 # 0x3A
       # 0x22 # quote_units (type_string (HostInfo.type info)) @ 0x22 # 0x2C
       # 0x22 # quote_units (js ''host'') @ 0x22 # 0x3A
       # 0x22 # quote_units (HostInfo.host info) @ 0x22 # 0x2C
       # 0x22 # quote_units (js ''port'') @ 0x22 # 0x3A # Number_toString p @ 0x7D # rest)"
    using Some
    by (simp add: JSON_stringify_shape skip_ws_Cons not_ws del: parse_members.simps)
  also have "\<dots> = parse_members (Suc (Suc (Suc n))) [(js ''type'', JString (type_string (HostInfo.type info)))]
       (0x22 # quote_units (js ''host'') @ 0x22 # 0x3A
       # 0x22 # quote_units (HostInfo.host info) @ 0x22 # 0x2C
       # 0x22 # quote_units (js ''port'') @ 0x22 # 0x3A # Number_toString p @ 0x7D # rest)"
    by (simp only: parse_members_string append_Nil)
  also have "\<dots> = parse_members (Suc (Suc n))
       [(js ''type'', JString (type_string (HostInfo.type info))), (js ''host'', JString (HostInfo.host info))]
       (0x22 # quote_units (js ''port'') @ 0x22 # 0x3A # Number_toString p @ 0x7D # rest)"
    by (simp only: parse_members_string append_Cons append_Nil)
  also have "\<dots> = Parsed (object_of info) rest"
    using Some by (simp only: parse_members_number_last object_of_def) simp
  finally show ?thesis .
qed

lemma JSON_stringify_length: "2 \<le> length (JSON_stringify info)"
  by (simp add: JSON_stringify_shape)

lemma JSON_parse_stringify: "JSON_parse (JSON_stringify info) = Some (object_of info)"
proof -
  define n where "n = 2 * length (JSON_stringify info) - 4"
  have "2 * length (JSON_stringify info) + 1 = Suc (Suc (Suc (Suc (Suc n))))"
    using JSON_stringify_length [of info] unfolding n_def by arith
  moreover have "parse_value (Suc (Suc (Suc (Suc (Suc n))))) (JSON_stringify info)
      = Parsed (object_of info) []"
    using parse_value_stringify [of n info "[]"] by simp
  ultimately show ?thesis
    by (simp add: JSON_parse_def skip_ws_Nil del: parse_value.simps)
qed

subsection \<open>The JSON text has no unpaired surrogate\<close>

lemma well_formed_plain_Cons: "plain c \<Longrightarrow> well_formed (c # s) = well_formed s"
  by (cases s) (auto simp: plain_def)

lemma well_formed_pair: "is_high c \<Longrightarrow> is_low d \<Longrightarrow> well_formed (c # d # s) = well_formed s"
  by simp

lemma well_formed_append:
  "well_formed a \<Longrightarrow> well_formed b \<Longrightarrow> well_formed (a @ b)"
proof (induction a rule: well_formed.induct)
  case 1
  then show ?case by simp
next
  case (2 c)
  then show ?case by (simp add: well_formed_plain_Cons plain_def)
next
  case (3 c d cs)
  show ?case
  proof (cases "is_high c \<and> is_low d")
    case True
    with 3 show ?thesis by simp
  next
    case False
    with 3(3) have p: "plain c" and w: "well_formed (d # cs)" by (simp_all add: plain_def)
    from 3(2) False p w 3(4) have "well_formed ((d # cs) @ b)" by (simp add: plain_def)
    with p show ?thesis
      using well_formed_plain_Cons [of c "d # cs @ b"] by simp
  qed
qed

lemma well_formed_all_plain: "\<forall>c \<in> set s. plain c \<Longrightarrow> well_formed s"
  by (induction s) (simp_all add: well_formed_plain_Cons)

lemma plain_small: "unat c < 0xD800 \<Longrightarrow> plain c"
  by (simp add: plain_def is_high_alt is_low_alt)

lemma plain_hex_digit: "n < 16 \<Longrightarrow> plain (hex_digit n)"
  by (rule plain_small) (simp add: unat_hex_digit)

lemma well_formed_quote_unit: "well_formed (quote_unit c)"
proof (rule well_formed_all_plain, rule ballI)
  fix x assume x: "x \<in> set (quote_unit c)"
  have h: "unat c div 4096 < 16" using unat_unit_lt [of c] by simp
  have p: "plain 0x5C" "plain 0x62" "plain 0x74" "plain 0x6E" "plain 0x66" "plain 0x72"
    "plain 0x22" "plain 0x75"
    by (simp_all add: plain_def is_high_def is_low_def)
  show "plain x"
    using x p h plain_hex_digit
    by (auto simp: quote_unit_def unicode_escape_def plain_def split: if_splits)
qed

lemma well_formed_quote_units: "well_formed (quote_units s)"
proof (induction s rule: quote_units.induct)
  case 1
  show ?case by simp
next
  case (2 c)
  show ?case by (simp add: well_formed_quote_unit)
next
  case (3 c d cs)
  show ?case
  proof (cases "is_high c \<and> is_low d")
    case True
    with 3 show ?thesis by simp
  next
    case False
    then have "quote_units (c # d # cs) = quote_unit c @ quote_units (d # cs)" by auto
    moreover from False 3 have "well_formed (quote_units (d # cs))" by blast
    ultimately show ?thesis
      by (simp add: well_formed_append well_formed_quote_unit del: quote_units.simps)
  qed
qed

lemma plain_digit: "is_digit c \<Longrightarrow> plain c"
  by (rule plain_small) (simp add: is_digit_alt)

lemma well_formed_Number_toString: "well_formed (Number_toString p)"
proof (rule well_formed_all_plain, rule ballI)
  fix x assume "x \<in> set (Number_toString p)"
  then have "x = 0x2D \<or> is_digit x"
    using digits_of_digits by (auto simp: Number_toString_def split: if_splits)
  moreover have "plain 0x2D" by (simp add: plain_def is_high_def is_low_def)
  ultimately show "plain x" using plain_digit by auto
qed

lemma well_formed_JSON_stringify: "well_formed (JSON_stringify info)"
proof -
  have p: "plain 0x7B" "plain 0x22" "plain 0x3A" "plain 0x2C" "plain 0x7D"
    by (simp_all add: plain_def is_high_def is_low_def)
  have tail: "well_formed
    (case HostInfo.port info of
            None \<Rightarrow> [0x7D]
          | Some p \<Rightarrow> 0x2C # 0x22 # quote_units (js ''port'') @ 0x22 # 0x3A
                        # Number_toString p @ [0x7D])"
    by (cases "HostInfo.port info")
       (simp_all add: well_formed_plain_Cons p well_formed_append well_formed_quote_units
          well_formed_Number_toString del: well_formed.simps(2,3))
  show ?thesis
    unfolding JSON_stringify_shape
    by (simp add: well_formed_plain_Cons p well_formed_append well_formed_quote_units tail
          del: well_formed.simps(2,3))
qed

subsection \<open>The patterns\<close>

lemma re_greedy_longest:
  assumes "\<And>run c r. p c \<Longrightarrow> k run (c # r) = None"
  shows "re_greedy p run k s = k (run @ takeWhile p s) (dropWhile p s)"
proof (induction s arbitrary: run)
  case Nil
  show ?case by simp
next
  case (Cons c cs)
  show ?case
  proof (cases "p c")
    case True
    with assms have "k run (c # cs) = None" by simp
    with True Cons [of "run @ [c]"] show ?thesis
      by (simp split: option.splits)
  next
    case False
    then show ?thesis by simp
  qed
qed

lemma re_greedy_total:
  assumes "\<And>run r. k run r \<noteq> None"
  shows "re_greedy p run k s = k (run @ takeWhile p s) (dropWhile p s)"
proof (induction s arbitrary: run)
  case Nil
  show ?case by simp
next
  case (Cons c cs)
  show ?case
  proof (cases "p c")
    case True
    with Cons [of "run @ [c]"] assms [of "run @ c # takeWhile p cs" "dropWhile p cs"] show ?thesis
      by (auto split: option.splits)
  next
    case False
    then show ?thesis by simp
  qed
qed

lemma re_plus_longest:
  assumes "\<And>run c r. p c \<Longrightarrow> k run (c # r) = None"
  shows "re_plus p k s
    = (if takeWhile p s = [] then None else k (takeWhile p s) (dropWhile p s))"
proof -
  have "re_greedy p [] (\<lambda>run rest. if run = [] then None else k run rest) s
      = (\<lambda>run rest. if run = [] then None else k run rest) ([] @ takeWhile p s) (dropWhile p s)"
    by (rule re_greedy_longest) (simp add: assms)
  then show ?thesis by (simp add: re_plus_def)
qed

lemma re_star_total:
  assumes "\<And>run r. k run r \<noteq> None"
  shows "re_star p k s = k (takeWhile p s) (dropWhile p s)"
  using re_greedy_total [of k p "[]" s] assms by (simp add: re_star_def)

lemma re_lit_prefix:
  "re_lit m k s = (if prefix m s then k (drop (length m) s) else None)"
  by (induction m k s rule: re_lit.induct) auto

lemma match_marker_Nil: "match_marker [] = None"
  by (simp add: match_marker_def js_def)

lemma marker_length: "length (js ''remote-oss+'') = 11"
  by (simp add: js_def)

lemma prefix_marker: "prefix (js ''remote-oss+'') s \<longleftrightarrow> take 11 s = js ''remote-oss+''"
proof
  assume "prefix (js ''remote-oss+'') s"
  then obtain t where "s = js ''remote-oss+'' @ t" by (auto simp: prefix_def)
  then show "take 11 s = js ''remote-oss+''" by (simp add: marker_length)
next
  assume "take 11 s = js ''remote-oss+''"
  then have "s = js ''remote-oss+'' @ drop 11 s"
    by (metis append_take_drop_id)
  then show "prefix (js ''remote-oss+'') s"
    using prefixI by blast
qed

lemma match_marker_Cons:
  "match_marker (c # cs) =
     (if take 11 (c # cs) = js ''remote-oss+''
      then Some (takeWhile (\<lambda>x. \<not> line_terminator x) (drop 11 (c # cs)))
      else match_marker cs)"
proof -
  have "re_star (\<lambda>c. \<not> line_terminator c) (\<lambda>group rest. Some group) t
      = Some (takeWhile (\<lambda>x. \<not> line_terminator x) t)" for t
    by (subst re_star_total) simp_all
  then show ?thesis
    by (simp add: match_marker_def re_lit_prefix prefix_marker marker_length
        del: re_lit.simps)
qed

lemma digits_to_end:
  "re_plus is_digit (\<lambda>g. re_end (Some (f g))) s = (if all_digits s then Some (f s) else None)"
proof -
  have "re_plus is_digit (\<lambda>g. re_end (Some (f g))) s
      = (if takeWhile is_digit s = [] then None
         else re_end (Some (f (takeWhile is_digit s))) (dropWhile is_digit s))"
    by (rule re_plus_longest) (simp add: re_end_def)
  also have "\<dots> = (if all_digits s then Some (f s) else None)"
  proof (cases "dropWhile is_digit s = []")
    case True
    then have a: "\<forall>x \<in> set s. is_digit x"
      by (simp add: dropWhile_eq_Nil_conv)
    then have tw: "takeWhile is_digit s = s" and la: "list_all is_digit s"
      by (simp_all add: takeWhile_eq_all_conv list_all_iff)
    show ?thesis unfolding tw True using la by (simp add: re_end_def all_digits_def)
  next
    case False
    then have nl: "\<not> list_all is_digit s"
      by (simp add: dropWhile_eq_Nil_conv list_all_iff)
    from False have "re_end x (dropWhile is_digit s) = None" for x :: "'a option"
      by (simp only: re_end_def if_False)
    then show ?thesis using nl by (simp add: all_digits_def)
  qed
  finally show ?thesis .
qed

lemma re_lit_one:
  "re_lit [a] k s = (case s of [] \<Rightarrow> None | x # t \<Rightarrow> if x = a then k t else None)"
  by (cases s) auto

lemma re_lit_two:
  "re_lit [a, b] k s =
     (case s of x # y # t \<Rightarrow> if x = a \<and> y = b then k t else None | _ \<Rightarrow> None)"
  by (cases s; cases "tl s") auto

lemma match_bracketed_closed:
  "match_bracketed s =
     (case s of
        [] \<Rightarrow> None
      | c # r \<Rightarrow>
          if c = 0x5B then
            (let h = takeWhile (\<lambda>x. x \<noteq> 0x5D) r
             in if h = [] then None
                else (case dropWhile (\<lambda>x. x \<noteq> 0x5D) r of
                        a # b # p \<Rightarrow> if a = 0x5D \<and> b = 0x3A \<and> all_digits p then Some (h, p) else None
                      | _ \<Rightarrow> None))
          else None)"
proof (cases s)
  case Nil
  then show ?thesis by (simp add: match_bracketed_def)
next
  case (Cons c r)
  let ?h = "takeWhile (\<lambda>x. x \<noteq> 0x5D) r" and ?d = "dropWhile (\<lambda>x. x \<noteq> 0x5D) r"
  have p: "re_plus (\<lambda>c. c \<noteq> 0x5D) (\<lambda>g1.
          re_lit [0x5D, 0x3A] (re_plus is_digit (\<lambda>g2. re_end (Some (g1, g2))))) r
      = (if ?h = [] then None
         else re_lit [0x5D, 0x3A] (re_plus is_digit (\<lambda>g2. re_end (Some (?h, g2)))) ?d)"
    by (rule re_plus_longest) simp
  have l: "re_lit [0x5D, 0x3A] (re_plus is_digit (\<lambda>g2. re_end (Some (?h, g2)))) d
      = (case d of
           a # b # p \<Rightarrow> if a = 0x5D \<and> b = 0x3A \<and> all_digits p then Some (?h, p) else None
         | _ \<Rightarrow> None)" for d
    unfolding re_lit_two digits_to_end [where f = "Pair ?h"]
    by (auto split: list.splits)
  show ?thesis
  proof (cases "c = 0x5B")
    case True
    then have "match_bracketed s
        = re_plus (\<lambda>c. c \<noteq> 0x5D) (\<lambda>g1.
            re_lit [0x5D, 0x3A] (re_plus is_digit (\<lambda>g2. re_end (Some (g1, g2))))) r"
      using Cons by (simp add: match_bracketed_def)
    then show ?thesis
      unfolding p l using Cons True by (simp add: Let_def)
  next
    case False
    then show ?thesis using Cons by (simp add: match_bracketed_def)
  qed
qed

lemma match_plain_closed:
  "match_plain s =
     (let h = takeWhile (\<lambda>x. x \<noteq> 0x3A) s
      in if h = [] then None
         else (case dropWhile (\<lambda>x. x \<noteq> 0x3A) s of
                 a # p \<Rightarrow> if a = 0x3A \<and> all_digits p then Some (h, p) else None
               | [] \<Rightarrow> None))"
proof -
  let ?h = "takeWhile (\<lambda>x. x \<noteq> 0x3A) s" and ?d = "dropWhile (\<lambda>x. x \<noteq> 0x3A) s"
  have p: "match_plain s
      = (if ?h = [] then None
         else re_lit [0x3A] (re_plus is_digit (\<lambda>g4. re_end (Some (?h, g4)))) ?d)"
    unfolding match_plain_def by (rule re_plus_longest) simp
  have l: "re_lit [0x3A] (re_plus is_digit (\<lambda>g4. re_end (Some (?h, g4)))) d
      = (case d of
           a # p \<Rightarrow> if a = 0x3A \<and> all_digits p then Some (?h, p) else None
         | [] \<Rightarrow> None)" for d
    unfolding re_lit_one digits_to_end [where f = "Pair ?h"]
    by (auto split: list.splits)
  show ?thesis
    unfolding p l by (simp add: Let_def)
qed

subsection \<open>Finding the marker, and the round trip\<close>

lemma marker_units:
  "js ''remote-oss+'' = [0x72, 0x65, 0x6D, 0x6F, 0x74, 0x65, 0x2D, 0x6F, 0x73, 0x73, 0x2B]"
  by (simp add: js_def)

lemma match_marker_here:
  "match_marker (js ''remote-oss+'' @ b) = Some (takeWhile (\<lambda>x. \<not> line_terminator x) b)"
  by (simp add: marker_units match_marker_Cons)

lemma match_marker_skip:
  "take 11 (c # cs) \<noteq> js ''remote-oss+'' \<Longrightarrow> match_marker (c # cs) = match_marker cs"
  by (simp add: match_marker_Cons)

lemma match_marker_encode:
  "match_marker (encode_remote_host info) = Some (base64_encode (utf8_encode (JSON_stringify info)))"
proof -
  have "takeWhile (\<lambda>x. \<not> line_terminator x) (base64_encode (utf8_encode (JSON_stringify info)))
      = base64_encode (utf8_encode (JSON_stringify info))"
    using base64_encode_plain by (simp add: takeWhile_eq_all_conv)
  then show ?thesis
    by (simp only: encode_remote_host_def Let_def match_marker_here)
qed

lemma decode_payload:
  "match_marker s = Some (base64_encode (utf8_encode (JSON_stringify info)))
   \<Longrightarrow> decode_remote_host s = Inr (Some (object_of info))"
  by (simp add: decode_remote_host_def base64_decode_encode utf8_decode_encode
      well_formed_JSON_stringify JSON_parse_stringify)

lemma decode_encode: "decode_remote_host (encode_remote_host info) = Inr (Some (object_of info))"
  by (rule decode_payload [OF match_marker_encode])

lemma match_marker_prefix:
  assumes "0x72 \<notin> set pre"
  shows "match_marker (pre @ js ''remote-oss+'' @ b) = match_marker (js ''remote-oss+'' @ b)"
  using assms
proof (induction pre)
  case Nil
  show ?case by simp
next
  case (Cons c pre)
  then have "take 11 (c # pre @ js ''remote-oss+'' @ b) \<noteq> js ''remote-oss+''"
    by (auto simp: marker_units)
  with Cons show ?case
    by (simp add: match_marker_skip)
qed

lemma as_HostInfo_object_of: "as_HostInfo (object_of info) = Some info"
proof -
  have k: "js ''type'' \<noteq> js ''host''" "js ''type'' \<noteq> js ''port''" "js ''host'' \<noteq> js ''port''"
    "js ''transient'' \<noteq> js ''configured''"
    by (simp_all add: js_def)
  show ?thesis
    using k
    by (cases info; cases "HostInfo.type info"; cases "HostInfo.port info")
       (auto simp: as_HostInfo_def object_of_def property_def type_string_def)
qed

lemma empty_object: "decode_remote_host (js ''remote-oss+e30='') = Inr (Some (JObject []))"
proof -
  have m: "match_marker (js ''remote-oss+e30='') = Some (js ''e30='')"
    using match_marker_here [of "js ''e30=''"]
    by (simp add: js_def line_terminator_def)
  have b: "base64_decode (js ''e30='') = [0x7B, 0x7D]"
    by (simp add: base64_decode_def sextets_def unbase64_def js_def List.map_filter_simps)
  have u: "utf8_decode [0x7B, 0x7D] = [0x7B, 0x7D]"
    by (simp add: code_units_def)
  have "parse_value (Suc n) [0x7B, 0x7D] = Parsed (JObject []) []" for n
    by (simp add: skip_ws_def is_ws_def)
  from this [of 4] have p: "JSON_parse [0x7B, 0x7D] = Some (JObject [])"
    by (simp add: JSON_parse_def skip_ws_def del: parse_value.simps)
  show ?thesis
    by (simp add: decode_remote_host_def m b u p del: utf8_decode.simps)
qed

lemma not_host: "as_HostInfo (JObject []) = None"
  by (simp add: as_HostInfo_def property_def)

subsection \<open>The parser consumes its input and has enough fuel\<close>

lemma length_skip_ws: "length (skip_ws s) \<le> length s"
  by (simp add: skip_ws_def length_dropWhile_le)

lemma skip_ws_Cons_length: "skip_ws s = c # r \<Longrightarrow> length r < length s"
  using length_skip_ws [of s] by simp

lemma cons_unit_length:
  "cons_unit c x = Some (v, r) \<Longrightarrow> \<exists>v'. x = Some (v', r)"
  by (cases x) (auto simp: cons_unit_def)

lemma parse_string_length: "parse_string s = Some (v, r) \<Longrightarrow> length r < length s"
proof (induction s arbitrary: v rule: length_induct)
  case (1 s)
  note IH = 1(1) [rule_format] and p = 1(2)
  from p obtain c cs where s: "s = c # cs" by (cases s) auto
  show ?case
  proof (cases "c = 0x22")
    case True
    with p s show ?thesis by simp
  next
    case q: False
    show ?thesis
    proof (cases "c = 0x5C")
      case True
      from p s q True obtain e es where cs: "cs = e # es" by (cases cs) auto
      show ?thesis
      proof (cases "e = 0x75")
        case u: True
        then obtain h1 h2 h3 h4 t u' where es: "es = h1 # h2 # h3 # h4 # t"
          and c: "cons_unit u' (parse_string t) = Some (v, r)"
          using p s q True cs
          by (auto split: list.splits option.splits)
        from cons_unit_length [OF c] obtain v' where "parse_string t = Some (v', r)" ..
        from IH [OF _ this] show ?thesis
          using s cs es by simp
      next
        case False
        then obtain u' where c: "cons_unit u' (parse_string es) = Some (v, r)"
          using p s q True cs by (auto split: option.splits)
        from cons_unit_length [OF c] obtain v' where "parse_string es = Some (v', r)" ..
        from IH [OF _ this] show ?thesis
          using s cs by simp
      qed
    next
      case False
      with p s q have c: "cons_unit c (parse_string cs) = Some (v, r)"
        by (auto split: if_splits)
      from cons_unit_length [OF c] obtain v' where "parse_string cs = Some (v', r)" ..
      from IH [OF _ this] show ?thesis
        using s by simp
    qed
  qed
qed

lemma parse_int_part_length: "parse_int_part s = Some (i, r) \<Longrightarrow> length r < length s"
  by (cases s) (auto simp: parse_int_part_def length_dropWhile_le less_Suc_eq_le split: if_splits)

lemma parse_fraction_length: "parse_fraction s = Some (f, r) \<Longrightarrow> length r \<le> length s"
  by (cases s) (auto simp: parse_fraction_def Let_def length_dropWhile_le le_SucI split: if_splits)

lemma parse_exponent_length: "parse_exponent s = Some (e, r) \<Longrightarrow> length r \<le> length s"
proof (cases s)
  case Nil
  then show "parse_exponent s = Some (e, r) \<Longrightarrow> ?thesis" by (simp add: parse_exponent_def)
next
  case (Cons c t)
  assume a: "parse_exponent s = Some (e, r)"
  show ?thesis
  proof (cases "c = 0x65 \<or> c = 0x45")
    case False
    with a Cons show ?thesis by (auto simp: parse_exponent_def)
  next
    case True
    define t' where "t' = (case t of [] \<Rightarrow> t | d # u \<Rightarrow> if d = 0x2D then u else if d = 0x2B then u else t)"
    have "length t' \<le> length t" by (auto simp: t'_def split: list.splits)
    moreover have "r = dropWhile is_digit t'"
      using a Cons True
      by (auto simp: parse_exponent_def Let_def t'_def split: list.splits if_splits)
    ultimately show ?thesis
      using Cons length_dropWhile_le [of is_digit t'] by simp
  qed
qed

lemma parse_number_length:
  assumes "parse_number s = Some (q, r)"
  shows "length r < length s"
proof -
  define s1 where "s1 = (case s of [] \<Rightarrow> s | c # t \<Rightarrow> if c = 0x2D then t else s)"
  have l: "length s1 \<le> length s" by (auto simp: s1_def split: list.splits)
  obtain i s2 f s3 e where "parse_int_part s1 = Some (i, s2)" "parse_fraction s2 = Some (f, s3)"
    "parse_exponent s3 = Some (e, r)"
    using assms
    by (auto simp: parse_number_def s1_def Let_def split: list.splits if_splits option.splits)
  then have "length s2 < length s1" "length s3 \<le> length s2" "length r \<le> length s3"
    using parse_int_part_length parse_fraction_length parse_exponent_length by blast+
  with l show ?thesis by linarith
qed

lemma drop_length: "drop k (c # r) = t \<Longrightarrow> 0 < k \<Longrightarrow> length t < length (c # r)"
  by (cases k) auto

lemma parse_length_aux:
  "(\<forall>s v r. parse_value n s = Parsed v r \<longrightarrow> length r < length s)
 \<and> (\<forall>acc s v r. parse_elements n acc s = Parsed v r \<longrightarrow> length r < length s)
 \<and> (\<forall>acc s v r. parse_members n acc s = Parsed v r \<longrightarrow> length r < length s)"
proof (induction n)
  case 0
  show ?case by simp
next
  case (Suc n)
  then have V: "\<And>s v r. parse_value n s = Parsed v r \<Longrightarrow> length r < length s"
    and E: "\<And>acc s v r. parse_elements n acc s = Parsed v r \<Longrightarrow> length r < length s"
    and M: "\<And>acc s v r. parse_members n acc s = Parsed v r \<Longrightarrow> length r < length s"
    by blast+
  have v: "length r < length s" if p: "parse_value (Suc n) s = Parsed v r" for s v r
  proof -
    from p obtain c t where sk: "skip_ws s = c # t"
      by (cases "skip_ws s") auto
    note l = skip_ws_Cons_length [OF sk]
    consider "c = 0x7B" | "c \<noteq> 0x7B" "c = 0x5B" | "c \<noteq> 0x7B" "c \<noteq> 0x5B" "c = 0x22"
      | "c \<noteq> 0x7B" "c \<noteq> 0x5B" "c \<noteq> 0x22"
      by blast
    then show ?thesis
    proof cases
      case 1
      with p sk obtain d t' where sk': "skip_ws t = d # t'"
        by (cases "skip_ws t") auto
      note l' = skip_ws_Cons_length [OF sk']
      show ?thesis
      proof (cases "d = 0x7D")
        case True
        with p sk 1 sk' l l' show ?thesis by simp
      next
        case False
        with p sk 1 sk' have "parse_members n [] (d # t') = Parsed v r" by simp
        from M [OF this] l l' show ?thesis by simp
      qed
    next
      case 2
      with p sk obtain d t' where sk': "skip_ws t = d # t'"
        by (cases "skip_ws t") auto
      note l' = skip_ws_Cons_length [OF sk']
      show ?thesis
      proof (cases "d = 0x5D")
        case True
        with p sk 2 sk' l l' show ?thesis by simp
      next
        case False
        with p sk 2 sk' have "parse_elements n [] (d # t') = Parsed v r" by simp
        from E [OF this] l l' show ?thesis by simp
      qed
    next
      case 3
      with p sk obtain str where "parse_string t = Some (str, r)"
        by (auto split: option.splits)
      from parse_string_length [OF this] l show ?thesis by simp
    next
      case 4
      have "length r < length (c # t)"
      proof -
        consider "take 4 (c # t) = js ''true''"
          | "take 4 (c # t) \<noteq> js ''true''" "take 5 (c # t) = js ''false''"
          | "take 4 (c # t) \<noteq> js ''true''" "take 5 (c # t) \<noteq> js ''false''" "take 4 (c # t) = js ''null''"
          | "take 4 (c # t) \<noteq> js ''true''" "take 5 (c # t) \<noteq> js ''false''" "take 4 (c # t) \<noteq> js ''null''"
          by blast
        then show ?thesis
        proof cases
          case 1
          with p sk 4 have "drop 4 (c # t) = r" by simp
          from drop_length [OF this] show ?thesis by simp
        next
          case 2
          with p sk 4 have "drop 5 (c # t) = r" by simp
          from drop_length [OF this] show ?thesis by simp
        next
          case 3
          with p sk 4 have "drop 4 (c # t) = r" by simp
          from drop_length [OF this] show ?thesis by simp
        next
          case 4
          with p sk \<open>c \<noteq> 0x7B\<close> \<open>c \<noteq> 0x5B\<close> \<open>c \<noteq> 0x22\<close>
          obtain q where "parse_number (c # t) = Some (q, r)"
            by (auto split: option.splits)
          from parse_number_length [OF this] show ?thesis .
        qed
      qed
      with l show ?thesis by simp
    qed
  qed
  have e: "length r < length s" if p: "parse_elements (Suc n) acc s = Parsed v r" for acc s v r
  proof -
    from p obtain x t where pv: "parse_value n s = Parsed x t"
      by (cases "parse_value n s") auto
    note l = V [OF pv]
    from p pv obtain d t' where sk: "skip_ws t = d # t'"
      by (cases "skip_ws t") auto
    note l' = skip_ws_Cons_length [OF sk]
    show ?thesis
    proof (cases "d = 0x2C")
      case True
      with p pv sk have "parse_elements n (acc @ [x]) t' = Parsed v r" by simp
      from E [OF this] l l' show ?thesis by simp
    next
      case False
      with p pv sk have "r = t'" by (auto split: if_splits)
      with l l' show ?thesis by simp
    qed
  qed
  have m: "length r < length s" if p: "parse_members (Suc n) acc s = Parsed v r" for acc s v r
  proof -
    from p obtain c t where sk: "skip_ws s = c # t"
      by (cases "skip_ws s") auto
    note l = skip_ws_Cons_length [OF sk]
    from p sk have c: "c = 0x22" by (auto split: if_splits)
    with p sk obtain k r1 where ps: "parse_string t = Some (k, r1)"
      by (cases "parse_string t") auto
    note l1 = parse_string_length [OF ps]
    from p sk c ps obtain c1 r2 where sk1: "skip_ws r1 = c1 # r2"
      by (cases "skip_ws r1") auto
    note l2 = skip_ws_Cons_length [OF sk1]
    from p sk c ps sk1 have c1: "c1 = 0x3A" by (auto split: if_splits)
    with p sk c ps sk1 obtain x r3 where pv: "parse_value n r2 = Parsed x r3"
      by (cases "parse_value n r2") auto
    note l3 = V [OF pv]
    from p sk c ps sk1 c1 pv obtain d r4 where sk3: "skip_ws r3 = d # r4"
      by (cases "skip_ws r3") auto
    note l4 = skip_ws_Cons_length [OF sk3]
    show ?thesis
    proof (cases "d = 0x2C")
      case True
      with p sk c ps sk1 c1 pv sk3 have "parse_members n (acc @ [(k, x)]) r4 = Parsed v r" by simp
      from M [OF this] l l1 l2 l3 l4 show ?thesis by simp
    next
      case False
      with p sk c ps sk1 c1 pv sk3 have "r = r4" by (auto split: if_splits)
      with l l1 l2 l3 l4 show ?thesis by simp
    qed
  qed
  from v e m show ?case by blast
qed

lemma parse_value_length: "parse_value n s = Parsed v r \<Longrightarrow> length r < length s"
  using parse_length_aux by blast

lemma enough_fuel_aux:
  "(\<forall>s. 2 * length s < n \<longrightarrow> parse_value n s \<noteq> OutOfFuel)
 \<and> (\<forall>acc s. 2 * length s + 1 < n \<longrightarrow> parse_elements n acc s \<noteq> OutOfFuel)
 \<and> (\<forall>acc s. 2 * length s + 1 < n \<longrightarrow> parse_members n acc s \<noteq> OutOfFuel)"
proof (induction n)
  case 0
  show ?case by simp
next
  case (Suc n)
  then have V: "\<And>s. 2 * length s < n \<Longrightarrow> parse_value n s \<noteq> OutOfFuel"
    and E: "\<And>acc s. 2 * length s + 1 < n \<Longrightarrow> parse_elements n acc s \<noteq> OutOfFuel"
    and M: "\<And>acc s. 2 * length s + 1 < n \<Longrightarrow> parse_members n acc s \<noteq> OutOfFuel"
    by blast+
  have v: "parse_value (Suc n) s \<noteq> OutOfFuel" if f: "2 * length s < Suc n" for s
  proof (cases "skip_ws s")
    case Nil
    then show ?thesis by simp
  next
    case (Cons c t)
    note l = skip_ws_Cons_length [OF Cons]
    show ?thesis
    proof (cases "skip_ws t")
      case Nil
      with Cons show ?thesis by (auto split: option.splits)
    next
      case t: (Cons d t')
      note l' = skip_ws_Cons_length [OF t]
      have "2 * length (d # t') + 1 < n" using f l l' by simp
      from E [OF this] M [OF this] Cons t show ?thesis
        by (auto split: option.splits)
    qed
  qed
  have e: "parse_elements (Suc n) acc s \<noteq> OutOfFuel" if f: "2 * length s + 1 < Suc n" for acc s
  proof (cases "parse_value n s")
    case OutOfFuel
    with V [of s] f show ?thesis by simp
  next
    case Invalid
    then show ?thesis by simp
  next
    case (Parsed x t)
    note l = parse_value_length [OF Parsed]
    show ?thesis
    proof (cases "skip_ws t")
      case Nil
      with Parsed show ?thesis by simp
    next
      case (Cons d t')
      note l' = skip_ws_Cons_length [OF Cons]
      have "2 * length t' + 1 < n" using f l l' by simp
      from E [OF this] Parsed Cons show ?thesis by simp
    qed
  qed
  have m: "parse_members (Suc n) acc s \<noteq> OutOfFuel" if f: "2 * length s + 1 < Suc n" for acc s
  proof (cases "skip_ws s")
    case Nil
    then show ?thesis by simp
  next
    case (Cons c t)
    note l = skip_ws_Cons_length [OF Cons]
    show ?thesis
    proof (cases "parse_string t")
      case None
      with Cons show ?thesis by simp
    next
      case (Some kr)
      obtain k r1 where kr: "kr = (k, r1)" by (cases kr)
      note l1 = parse_string_length [OF Some [unfolded kr]]
      show ?thesis
      proof (cases "skip_ws r1")
        case Nil
        with Cons Some kr show ?thesis by simp
      next
        case r1: (Cons c1 r2)
        note l2 = skip_ws_Cons_length [OF r1]
        have f2: "2 * length r2 < n" using f l l1 l2 by simp
        show ?thesis
        proof (cases "parse_value n r2")
          case OutOfFuel
          with V [OF f2] show ?thesis by simp
        next
          case Invalid
          with Cons Some kr r1 show ?thesis by simp
        next
          case (Parsed x r3)
          note l3 = parse_value_length [OF Parsed]
          show ?thesis
          proof (cases "skip_ws r3")
            case Nil
            with Cons Some kr r1 Parsed show ?thesis by simp
          next
            case r3: (Cons d r4)
            note l4 = skip_ws_Cons_length [OF r3]
            have "2 * length r4 + 1 < n" using f2 l3 l4 by simp
            from M [OF this] Cons Some kr r1 Parsed r3 show ?thesis by simp
          qed
        qed
      qed
    qed
  qed
  from v e m show ?case by blast
qed

lemma enough_fuel: "parse_value (2 * length s + 1) s \<noteq> OutOfFuel"
  using enough_fuel_aux [of "2 * length s + 1"] by simp

lemma JSON_parse_None: "JSON_parse s = None \<longleftrightarrow>
    parse_value (2 * length s + 1) s = Invalid
  \<or> (\<exists>v r. parse_value (2 * length s + 1) s = Parsed v r \<and> skip_ws r \<noteq> [])"
  using enough_fuel [of s]
  by (cases "parse_value (2 * length s + 1) s") (auto simp: JSON_parse_def simp del: parse_value.simps)

subsection \<open>The host pattern\<close>

lemma takeWhile_until:
  "x \<notin> set h \<Longrightarrow> takeWhile (\<lambda>c. c \<noteq> x) (h @ x # r) = h"
  "x \<notin> set h \<Longrightarrow> dropWhile (\<lambda>c. c \<noteq> x) (h @ x # r) = x # r"
  by (induction h) auto

lemma match_bracketed_iff: "match_bracketed s = Some (h, p) \<longleftrightarrow> bracketed_form s h p"
proof
  assume m: "match_bracketed s = Some (h, p)"
  then obtain r where s: "s = 0x5B # r"
    by (cases s) (auto simp: match_bracketed_closed split: if_splits)
  let ?h = "takeWhile (\<lambda>x. x \<noteq> 0x5D) r" and ?d = "dropWhile (\<lambda>x. x \<noteq> 0x5D) r"
  from m s have h: "?h \<noteq> []" and d: "?d = 0x5D # 0x3A # p" and p: "all_digits p" and hh: "h = ?h"
    by (auto simp: match_bracketed_closed Let_def split: if_splits list.splits)
  have "r = ?h @ ?d" by simp
  with d have "r = h @ 0x5D # 0x3A # p" using hh by simp
  moreover have "0x5D \<notin> set h"
    unfolding hh using set_takeWhileD by fastforce
  ultimately show "bracketed_form s h p"
    using s h p hh by (simp add: bracketed_form_def all_digits_def)
next
  assume "bracketed_form s h p"
  then show "match_bracketed s = Some (h, p)"
    by (simp add: bracketed_form_def match_bracketed_closed takeWhile_until all_digits_def)
qed

lemma match_plain_iff: "match_plain s = Some (h, p) \<longleftrightarrow> hostname_form s h p"
proof
  assume m: "match_plain s = Some (h, p)"
  let ?h = "takeWhile (\<lambda>x. x \<noteq> 0x3A) s" and ?d = "dropWhile (\<lambda>x. x \<noteq> 0x3A) s"
  from m have h: "?h \<noteq> []" and d: "?d = 0x3A # p" and p: "all_digits p" and hh: "h = ?h"
    by (auto simp: match_plain_closed Let_def split: if_splits list.splits)
  have "s = ?h @ ?d" by simp
  with d have "s = h @ 0x3A # p" using hh by simp
  moreover have "0x3A \<notin> set h"
    unfolding hh using set_takeWhileD by fastforce
  ultimately show "hostname_form s h p"
    using h p hh by (simp add: hostname_form_def all_digits_def)
next
  assume "hostname_form s h p"
  then show "match_plain s = Some (h, p)"
    by (simp add: hostname_form_def match_plain_closed takeWhile_until all_digits_def)
qed

subsection \<open>The port number\<close>

text \<open>
  The Number value is exact up to \<open>2^53\<close>, it is \<open>Infinity\<close> from \<open>2^1024\<close> on, and a
  finite one is a multiple of the last binary digit kept that is at most half of that
  digit away.
\<close>

lemma bit_length_0: "bit_length 0 = 0"
  by (simp add: bit_length.simps)

lemma bit_length_le: "n < 2 ^ k \<Longrightarrow> bit_length n \<le> k"
proof (induction k arbitrary: n)
  case 0
  then show ?case by (simp add: bit_length_0)
next
  case (Suc k)
  show ?case
  proof (cases "n = 0")
    case True
    then show ?thesis by (simp add: bit_length_0)
  next
    case False
    from Suc.prems have "n div 2 < 2 ^ k" by simp
    then have "bit_length (n div 2) \<le> k" by (rule Suc.IH)
    with False show ?thesis by (simp add: bit_length.simps [of n])
  qed
qed

lemma bit_length_ge: "2 ^ k \<le> n \<Longrightarrow> k < bit_length n"
proof (induction k arbitrary: n)
  case 0
  then show ?case by (simp add: bit_length.simps [of n])
next
  case (Suc k)
  have "0 < (2::nat) ^ Suc k" by simp
  with Suc.prems have "n \<noteq> 0" by linarith
  from Suc.prems have "2 ^ k \<le> n div 2" by simp
  then have "k < bit_length (n div 2)" by (rule Suc.IH)
  with \<open>n \<noteq> 0\<close> show ?case by (simp add: bit_length.simps [of n])
qed

lemma less_bit_length: "n < 2 ^ bit_length n"
proof (induction n rule: bit_length.induct)
  case (1 n)
  show ?case
  proof (cases "n = 0")
    case True
    then show ?thesis by simp
  next
    case False
    from 1 [OF False] have "n div 2 < 2 ^ bit_length (n div 2)" .
    then have "n < 2 * 2 ^ bit_length (n div 2)" by simp
    with False show ?thesis by (simp add: bit_length.simps [of n])
  qed
qed

lemma bit_length_eq: "2 ^ k \<le> n \<Longrightarrow> n < 2 ^ Suc k \<Longrightarrow> bit_length n = Suc k"
  using bit_length_le [of n "Suc k"] bit_length_ge [of k n] by simp

lemma number_value_small: "n < 2 ^ 53 \<Longrightarrow> number_value n = Finite (int n)"
proof -
  assume n: "n < 2 ^ 53"
  then have e: "bit_length n - 53 = 0" using bit_length_le [of n 53] by simp
  have "(2::nat) ^ 53 \<le> 2 ^ 1024" by (rule power_increasing) simp_all
  with n have "\<not> 2 ^ 1024 \<le> n" by simp
  then show ?thesis
    unfolding number_value_def e by (simp add: Let_def)
qed

lemma number_value_exact: "n \<le> 2 ^ 53 \<Longrightarrow> number_value n = Finite (int n)"
proof (cases "n < 2 ^ 53")
  case True
  then show ?thesis by (rule number_value_small)
next
  case False
  assume "n \<le> 2 ^ 53"
  with False have n: "n = 2 ^ 53" by simp
  have e: "bit_length n - 53 = 1" unfolding n using bit_length_eq [of 53 "2 ^ 53"] by simp
  show ?thesis
    unfolding number_value_def e by (simp add: Let_def n)
qed

lemma number_value_overflow: "2 ^ 1024 \<le> n \<Longrightarrow> number_value n = Infinity"
proof -
  assume n: "2 ^ 1024 \<le> n"
  define e where "e = bit_length n - 53"
  define b where "b = bit_length n"
  from n have b: "1024 < b" unfolding b_def by (rule bit_length_ge)
  then have be: "b = Suc (52 + e)" unfolding e_def b_def by simp
  have "2 ^ (52 + e) \<le> n"
  proof (rule ccontr)
    assume "\<not> 2 ^ (52 + e) \<le> n"
    then have "n < 2 ^ (52 + e)" by simp
    then have "bit_length n \<le> 52 + e" by (rule bit_length_le)
    with be show False by (simp add: b_def)
  qed
  then have "2 ^ 52 * 2 ^ e \<le> n" by (simp add: power_add)
  then have q: "2 ^ 52 \<le> n div 2 ^ e"
    by (simp add: less_eq_div_iff_mult_less_eq)
  from b be have "972 \<le> e" by simp
  then have "(2::nat) ^ 972 \<le> 2 ^ e" by (intro power_increasing) simp_all
  with q have "(2::nat) ^ 52 * 2 ^ 972 \<le> (n div 2 ^ e) * 2 ^ e"
    by (intro mult_le_mono)
  then have big: "(2::nat) ^ 1024 \<le> (n div 2 ^ e) * 2 ^ e"
    by (simp add: power_add [symmetric])
  then have "(2::nat) ^ 1024 \<le> (n div 2 ^ e + 1) * 2 ^ e"
    by (simp add: add_mult_distrib)
  with big show ?thesis
    unfolding number_value_def e_def [symmetric] by (simp add: Let_def)
qed

lemma number_value_nearest:
  assumes "number_value n = Finite m"
  shows "\<exists>q \<le> 2 ^ 53. m = int (q * 2 ^ (bit_length n - 53))
              \<and> 2 * \<bar>m - int n\<bar> \<le> 2 ^ (bit_length n - 53)"
proof -
  define e where "e = bit_length n - 53"
  define q where "q = n div 2 ^ e"
  define r where "r = n mod 2 ^ e"
  define up where "up \<longleftrightarrow> 2 ^ e < 2 * r \<or> (2 * r = 2 ^ e \<and> odd q)"
  define q' where "q' = (if up then q + 1 else q)"
  have "number_value n = (if 2 ^ 1024 \<le> q' * 2 ^ e then Infinity else Finite (int (q' * 2 ^ e)))"
    by (simp only: number_value_def Let_def e_def q_def r_def up_def q'_def)
  with assms have m: "m = int (q' * 2 ^ e)"
    by (simp only: number.simps split: if_splits)
  have n: "n = q * 2 ^ e + r"
    unfolding q_def r_def by (rule div_mult_mod_eq [symmetric])
  have r: "r < 2 ^ e" by (simp add: r_def)
  have "n < 2 ^ bit_length n" by (rule less_bit_length)
  also have "\<dots> \<le> 2 ^ (53 + e)" by (intro power_increasing) (simp_all add: e_def)
  finally have "n < 2 ^ 53 * 2 ^ e" by (simp add: power_add)
  then have "q < 2 ^ 53" unfolding q_def by (simp add: div_less_iff_less_mult)
  then have 1: "q' \<le> 2 ^ 53" by (simp add: q'_def)
  have ri: "int r < 2 ^ e"
    using of_nat_less_iff [of r "2 ^ e", where 'a = int] r by simp
  have 2: "2 * \<bar>m - int n\<bar> \<le> 2 ^ e"
  proof (cases up)
    case True
    then have "2 ^ e \<le> 2 * r" by (auto simp: up_def)
    then have "(2::int) ^ e \<le> 2 * int r"
      using of_nat_le_iff [of "2 ^ e" "2 * r", where 'a = int] by simp
    moreover have "m - int n = 2 ^ e - int r"
      using True by (simp add: m n q'_def algebra_simps)
    ultimately show ?thesis using ri by simp
  next
    case False
    then have "2 * r \<le> 2 ^ e" by (auto simp: up_def)
    then have "2 * int r \<le> 2 ^ e"
      using of_nat_le_iff [of "2 * r" "2 ^ e", where 'a = int] by simp
    moreover have "m - int n = - int r"
      using False by (simp add: m n q'_def)
    ultimately show ?thesis
      by simp
  qed
  from m 1 2 show ?thesis unfolding e_def by blast
qed


lemma parseInt_exact: "decimal p \<le> 2 ^ 53 \<Longrightarrow> parseInt p = Finite (int (decimal p))"
  unfolding parseInt_def by (rule number_value_exact)

lemma number_value_rounded: "number_value 9007199254740993 = Finite 9007199254740992"
proof -
  have "bit_length 9007199254740993 = Suc 53"
    by (rule bit_length_eq) simp_all
  then show ?thesis by (simp add: number_value_def Let_def)
qed

subsection \<open>The handler\<close>

lemma temporaryHost_bracketed:
  "bracketed_form s h p \<Longrightarrow>
   temporaryHost (Some s)
     = Inr \<lparr>TemporaryHostInfo.type = Transient, host = h, port = parseInt p\<rparr>"
proof -
  assume b: "bracketed_form s h p"
  then have "match_bracketed s = Some (h, p)" by (simp add: match_bracketed_iff)
  moreover from b have "s \<noteq> []" by (simp add: bracketed_form_def)
  ultimately show ?thesis
    by (simp add: temporaryHost_def match_host_def)
qed

lemma temporaryHost_hostname:
  assumes "\<forall>h' p'. \<not> bracketed_form s h' p'" and "hostname_form s h p"
  shows "temporaryHost (Some s)
     = Inr \<lparr>TemporaryHostInfo.type = Transient, host = h, port = parseInt p\<rparr>"
proof -
  have "match_bracketed s = None"
    using assms(1) match_bracketed_iff by (cases "match_bracketed s") auto
  moreover have "match_plain s = Some (h, p)"
    using assms(2) by (simp add: match_plain_iff)
  moreover from assms(2) have "s \<noteq> []" by (simp add: hostname_form_def)
  ultimately show ?thesis
    by (simp add: temporaryHost_def match_host_def)
qed

lemma temporaryHost_rejected:
  assumes "\<forall>h p. \<not> bracketed_form s h p" and "\<forall>h p. \<not> hostname_form s h p"
  shows "temporaryHost (Some s) = Inl (if s = [] then empty_message else format_message)"
proof -
  have "match_bracketed s = None"
    using assms(1) match_bracketed_iff by (cases "match_bracketed s") auto
  moreover have "match_plain s = None"
    using assms(2) match_plain_iff by (cases "match_plain s") auto
  ultimately show ?thesis
    by (simp add: temporaryHost_def match_host_def)
qed

lemma not_bracketed: "match_bracketed s = None \<Longrightarrow> \<not> bracketed_form s h p"
  using match_bracketed_iff [of s h p] by simp

lemma not_hostname: "match_plain s = None \<Longrightarrow> \<not> hostname_form s h p"
  using match_plain_iff [of s h p] by simp

lemma is_digit_numerals:
  "is_digit 0x30" "is_digit 0x31" "is_digit 0x32" "is_digit 0x33" "is_digit 0x34"
  "is_digit 0x35" "is_digit 0x36" "is_digit 0x37" "is_digit 0x38" "is_digit 0x39"
  by (simp_all add: is_digit_def)

lemma example_plain:
  "hostname_form (js ''example.com:22'') (js ''example.com'') (js ''22'')"
  by (simp add: hostname_form_def js_def is_digit_def)

lemma example_plain_not_bracketed: "match_bracketed (js ''example.com:22'') = None"
  by (simp add: match_bracketed_closed js_def)

lemma example_bracketed:
  "bracketed_form (js ''[::1]:2222'') (js ''::1'') (js ''2222'')"
  by (simp add: bracketed_form_def js_def is_digit_def)

lemma example_bad:
  "match_bracketed (js ''bad-input'') = None" "match_plain (js ''bad-input'') = None"
  by (simp_all add: match_bracketed_closed match_plain_closed js_def)

lemma decimal_examples: "decimal (js ''22'') = 22" "decimal (js ''2222'') = 2222"
  by (simp_all add: decimal_def js_def)

lemma parseInt_examples:
  "parseInt (js ''22'') = Finite 22" "parseInt (js ''2222'') = Finite 2222"
  using parseInt_exact [of "js ''22''"] parseInt_exact [of "js ''2222''"]
  by (simp_all add: decimal_examples)

text \<open>A port above \<open>2^53\<close> is rounded: \<open>h:9007199254740993\<close> gives the port 9007199254740992.\<close>

lemma rounded_form:
  "hostname_form (js ''h:9007199254740993'') (js ''h'') (js ''9007199254740993'')"
  by (simp add: hostname_form_def js_def is_digit_def)

lemma rounded_not_bracketed: "match_bracketed (js ''h:9007199254740993'') = None"
  by (simp add: match_bracketed_closed js_def)

lemma decimal_rounded: "decimal (js ''9007199254740993'') = 9007199254740993"
  by (simp add: decimal_def js_def)

lemma temporaryHost_rounded:
  "temporaryHost (Some (js ''h:9007199254740993''))
     = Inr \<lparr>TemporaryHostInfo.type = Transient, host = js ''h'',
            port = Finite 9007199254740992\<rparr>"
proof -
  have "\<forall>h' p'. \<not> bracketed_form (js ''h:9007199254740993'') h' p'"
    using not_bracketed [OF rounded_not_bracketed] by blast
  from temporaryHost_hostname [OF this rounded_form] show ?thesis
    by (simp only: parseInt_def decimal_rounded number_value_rounded)
qed

subsection \<open>The first occurrence of the marker\<close>

lemma take_marker_prefix: "take 11 s = js ''remote-oss+'' \<longleftrightarrow> prefix (js ''remote-oss+'') s"
proof
  assume "take 11 s = js ''remote-oss+''"
  then have "s = js ''remote-oss+'' @ drop 11 s"
    by (metis append_take_drop_id)
  then show "prefix (js ''remote-oss+'') s"
    using prefixI by blast
next
  assume "prefix (js ''remote-oss+'') s"
  then obtain t where "s = js ''remote-oss+'' @ t" by (auto simp: prefix_def)
  then show "take 11 s = js ''remote-oss+''" by (simp add: marker_units)
qed

lemma match_marker_first:
  assumes "\<forall>i < length pre. take 11 (drop i (pre @ js ''remote-oss+'' @ cap @ rest)) \<noteq> js ''remote-oss+''"
    and "\<forall>c \<in> set cap. \<not> line_terminator c" and "rest = [] \<or> line_terminator (hd rest)"
  shows "match_marker (pre @ js ''remote-oss+'' @ cap @ rest) = Some cap"
  using assms(1)
proof (induction pre)
  case Nil
  have "takeWhile (\<lambda>x. \<not> line_terminator x) (cap @ rest) = cap"
  proof (cases rest)
    case Nil
    with assms(2) show ?thesis by (simp add: takeWhile_eq_all_conv)
  next
    case (Cons x xs)
    with assms(3) have "line_terminator x" by simp
    with assms(2) Cons show ?thesis by (simp add: takeWhile_append2)
  qed
  then show ?case using match_marker_here [of "cap @ rest"] by simp
next
  case (Cons c pre)
  from Cons(2) [rule_format, of 0]
  have "take 11 (c # pre @ js ''remote-oss+'' @ cap @ rest) \<noteq> js ''remote-oss+''" by simp
  then have "match_marker ((c # pre) @ js ''remote-oss+'' @ cap @ rest)
      = match_marker (pre @ js ''remote-oss+'' @ cap @ rest)"
    using match_marker_skip by simp
  moreover have "\<forall>i < length pre. take 11 (drop i (pre @ js ''remote-oss+'' @ cap @ rest)) \<noteq> js ''remote-oss+''"
  proof (intro allI impI)
    fix i assume "i < length pre"
    then have "Suc i < length (c # pre)" by simp
    from Cons(2) [rule_format, OF this] show "take 11 (drop i (pre @ js ''remote-oss+'' @ cap @ rest)) \<noteq> js ''remote-oss+''"
      by simp
  qed
  ultimately show ?case using Cons(1) by simp
qed

lemma marker_decomposition:
  assumes "sublist (js ''remote-oss+'') s"
  shows "\<exists>pre cap rest. s = pre @ js ''remote-oss+'' @ cap @ rest
           \<and> (\<forall>i < length pre. take 11 (drop i s) \<noteq> js ''remote-oss+'')
           \<and> (\<forall>c \<in> set cap. \<not> line_terminator c)
           \<and> (rest = [] \<or> line_terminator (hd rest))"
  using assms
proof (induction s)
  case Nil
  then show ?case by (simp add: marker_units)
next
  case (Cons c cs)
  show ?case
  proof (cases "take 11 (c # cs) = js ''remote-oss+''")
    case True
    let ?t = "drop 11 (c # cs)"
    let ?cap = "takeWhile (\<lambda>x. \<not> line_terminator x) ?t"
    let ?rest = "dropWhile (\<lambda>x. \<not> line_terminator x) ?t"
    have "c # cs = [] @ js ''remote-oss+'' @ ?cap @ ?rest"
      using True by (metis append_Nil append_take_drop_id takeWhile_dropWhile_id)
    moreover have "\<forall>x \<in> set ?cap. \<not> line_terminator x"
      using set_takeWhileD by fastforce
    moreover have "?rest = [] \<or> line_terminator (hd ?rest)"
      using hd_dropWhile [of "\<lambda>x. \<not> line_terminator x" ?t] by auto
    ultimately show ?thesis
      by (metis length_0_conv not_less_zero list.size(3))
  next
    case False
    then have "\<not> prefix (js ''remote-oss+'') (c # cs)"
      using take_marker_prefix [of "c # cs"] by blast
    with Cons(2) have "sublist (js ''remote-oss+'') cs"
      by (simp add: sublist_Cons_right)
    from Cons(1) [OF this] obtain pre cap rest where d: "cs = pre @ js ''remote-oss+'' @ cap @ rest"
      and f: "\<forall>i < length pre. take 11 (drop i cs) \<noteq> js ''remote-oss+''"
      and r: "\<forall>c \<in> set cap. \<not> line_terminator c" "rest = [] \<or> line_terminator (hd rest)"
      by blast
    have "\<forall>i < length (c # pre). take 11 (drop i (c # cs)) \<noteq> js ''remote-oss+''"
    proof (intro allI impI)
      fix i assume i: "i < length (c # pre)"
      show "take 11 (drop i (c # cs)) \<noteq> js ''remote-oss+''"
      proof (cases i)
        case 0
        with False show ?thesis by simp
      next
        case (Suc j)
        with i f show ?thesis by simp
      qed
    qed
    moreover have "c # cs = (c # pre) @ js ''remote-oss+'' @ cap @ rest"
      using d by simp
    ultimately show ?thesis using r by blast
  qed
qed

lemma decode_not_none:
  "sublist (js ''remote-oss+'') s \<Longrightarrow> decode_remote_host s \<noteq> Inr None"
proof -
  assume "sublist (js ''remote-oss+'') s"
  from marker_decomposition [OF this] obtain pre cap rest
    where "s = pre @ js ''remote-oss+'' @ cap @ rest"
      "\<forall>i < length pre. take 11 (drop i s) \<noteq> js ''remote-oss+''"
      "\<forall>c \<in> set cap. \<not> line_terminator c" "rest = [] \<or> line_terminator (hd rest)"
    by blast
  then have "match_marker s = Some cap"
    using match_marker_first [of pre cap rest] by simp
  then show ?thesis
    by (simp add: decode_remote_host_def split: option.splits)
qed

lemma js_append: "js (a @ b) = js a @ js b"
  by (simp add: js_def)

lemma carries_empty_object: "sublist (js ''remote-oss+'') (js ''remote-oss+e30='')"
proof -
  have "js ''remote-oss+e30='' = js ''remote-oss+'' @ js ''e30=''"
    by (simp add: js_def)
  then show ?thesis by (simp only: sublist_append_rightI)
qed

lemma carries_bang: "sublist (js ''remote-oss+'') (js ''remote-oss+!'')"
proof -
  have "js ''remote-oss+!'' = js ''remote-oss+'' @ js ''!''"
    by (simp add: js_def)
  then show ?thesis by (simp only: sublist_append_rightI)
qed

lemma decode_bang: "decode_remote_host (js ''remote-oss+!'') = Inl SyntaxError"
proof -
  have m: "match_marker (js ''remote-oss+!'') = Some (js ''!'')"
    using match_marker_here [of "js ''!''"]
    by (simp add: js_def line_terminator_def)
  have b: "base64_decode (js ''!'') = []"
    by (simp add: base64_decode_def sextets_def unbase64_def js_def List.map_filter_simps)
  have "parse_value (Suc n) [] = Invalid" for n
    by (simp add: skip_ws_def)
  from this [of 0] have p: "JSON_parse [] = None"
    by (simp add: JSON_parse_def del: parse_value.simps)
  show ?thesis
    by (simp add: decode_remote_host_def m b p del: utf8_decode.simps(2))
qed

lemma first_occurrence:
  assumes "0x72 \<notin> set pre"
  shows "\<forall>i < length pre. take 11 (drop i (pre @ t)) \<noteq> js ''remote-oss+''"
proof (intro allI impI)
  fix i assume i: "i < length pre"
  then have "drop i (pre @ t) = pre ! i # drop (Suc i) (pre @ t)"
    by (simp add: Cons_nth_drop_Suc nth_append)
  moreover have "pre ! i \<noteq> 0x72" using assms i by (metis nth_mem)
  ultimately show "take 11 (drop i (pre @ t)) \<noteq> js ''remote-oss+''"
    by (simp add: marker_units)
qed

section \<open>Claims about the registry and the resolver\<close>










text \<open>
  C6. When a Configured reference resolves to an entry whose policy is AlwaysPrompt and
  the input box yields nothing, \<open>resolveAuthority\<close> fails with the error
  \<open>no token specified\<close> and returns no connection parameters.
\<close>

theorem always_prompt_requires_token:
  assumes "HostInfo.type r = Configured"
    and "resolveHost (HostInfo.host r) s = (Inr h, s')"
    and "policyOf h = AlwaysPrompt"
    and "inputBox s (shown s) = None"
  shows "fst (resolveAuthority r s) = Inl (Error (js ''no token specified''))"
proof -
  have "inputBox s' (shown s') = None"
    using resolveHost_state [OF assms(2)] assms(4) by simp
  moreover have "r = \<lparr>HostInfo.type = Configured, host = HostInfo.host r, port = HostInfo.port r\<rparr>"
    using assms(1) by (cases r) simp
  ultimately show ?thesis
    using resolveAuthority_configured [OF assms(2), of "HostInfo.port r"] assms(3)
    by (auto split: token_setting.splits if_splits)
qed

text \<open>C6 at the spec's example: the token field is absent and the box is dismissed.\<close>

theorem always_prompt_requires_token_witness:
  "policyOf (hostItem (rawHost ''a'' ''1.2.3.4'' 22 None)) = AlwaysPrompt
   \<and> fst (resolveAuthority \<lparr>HostInfo.type = Configured, host = js ''a'', port = None\<rparr>
        (initial [rawHost ''a'' ''1.2.3.4'' 22 None] None))
      = Inl (Error (js ''no token specified''))"
proof -
  let ?s = "initial [rawHost ''a'' ''1.2.3.4'' 22 None] None"
  let ?r = "\<lparr>HostInfo.type = Configured, host = js ''a'', port = None\<rparr>"
  have 1: "HostInfo.type ?r = Configured" by simp
  have 2: "resolveHost (HostInfo.host ?r) ?s = (Inr (hostItem (rawHost ''a'' ''1.2.3.4'' 22 None)), readTree ?s)"
    by (simp add: run_defs)
  have 3: "policyOf (hostItem (rawHost ''a'' ''1.2.3.4'' 22 None)) = AlwaysPrompt"
    by (simp add: run_defs)
  have 4: "inputBox ?s (shown ?s) = None" by (simp add: initial_def)
  from always_prompt_requires_token [OF 1 2 3 4] 3 show ?thesis by simp
qed

text \<open>
  C9. Whenever the tree is unread or was built by \<open>readTree\<close>, a successful resolution
  never returns the empty string as token: the token is absent or non-empty.
\<close>

theorem token_never_empty:
  assumes "remotesTree s = None \<or> (\<exists>s0. remotesTree s = remotesTree (readTree s0))"
    and "fst (resolveAuthority r s) = Inr ra"
  shows "ResolvedAuthority.connectionToken ra \<noteq> Some []"
proof (cases "HostInfo.type r")
  case Transient
  then show ?thesis
    using assms(2) by (cases "inputBox s (shown s)") (auto simp: resolveAuthority_def pickToken_def split: if_splits)
next
  case Configured
  then have r: "r = \<lparr>HostInfo.type = Configured, host = HostInfo.host r, port = HostInfo.port r\<rparr>"
    by (cases r) simp
  obtain x s' where rh: "resolveHost (HostInfo.host r) s = (x, s')"
    by (cases "resolveHost (HostInfo.host r) s")
  show ?thesis
  proof (cases x)
    case (Inl e)
    then show ?thesis
      using assms(2) rh Configured by (simp add: resolveAuthority_def)
  next
    case (Inr h)
    then obtain q where "h = hostItem q"
      using getHostList_built [OF assms(1)] resolveHost_member rh by blast
    then have tok: "PlainHostItem.connectionToken h \<noteq> TokenString []"
      by (simp add: hostItem_fields effectiveToken_nonempty)
    have "resolveAuthority r s = resolveAuthority \<lparr>HostInfo.type = Configured, host = HostInfo.host r, port = HostInfo.port r\<rparr> s"
      using r by simp
    then show ?thesis
      using assms(2) tok resolveAuthority_configured [OF rh [unfolded Inr], of "HostInfo.port r"]
      by (cases "inputBox s' (shown s')") (auto split: token_setting.splits if_splits)
  qed
qed

text \<open>
  C9 at a record whose \<open>connectionToken\<close> is the empty string: the host prompts, and
  the token is the answer.
\<close>

theorem token_never_empty_witness:
  "fst (resolveAuthority \<lparr>HostInfo.type = Configured, host = js ''a'', port = None\<rparr>
        (initial [rawHost ''a'' ''1.2.3.4'' 22 (Some (TokenString []))] (Some (js ''typed''))))
     = Inr \<lparr>ResolvedAuthority.host = js ''1.2.3.4'', port = Some 22, connectionToken = Some (js ''typed'')\<rparr>
   \<and> js ''typed'' \<noteq> []"
proof -
  let ?s = "initial [rawHost ''a'' ''1.2.3.4'' 22 (Some (TokenString []))] (Some (js ''typed''))"
  let ?r = "\<lparr>HostInfo.type = Configured, host = js ''a'', port = None\<rparr>"
  let ?ra = "\<lparr>ResolvedAuthority.host = js ''1.2.3.4'', port = Some 22, connectionToken = Some (js ''typed'')\<rparr>"
  have 1: "remotesTree ?s = None \<or> (\<exists>s0. remotesTree ?s = remotesTree (readTree s0))"
    by (simp add: initial_def)
  have 2: "fst (resolveAuthority ?r ?s) = Inr ?ra"
    by (simp add: run_defs)
  from token_never_empty [OF 1 2] 2 show ?thesis by simp
qed

text \<open>
  C10. After a rebuild, every folder of every host carries the name of that host as its
  \<open>host\<close>; a host whose name is no string has no folders; and every host is the
  item built from one record of kind \<open>Manual\<close> of the configuration, with that record's
  name and, when the name is a string, one folder for each of the record's entries, in
  their order.
\<close>

theorem folder_back_reference:
  assumes "h \<in> set (fst (getHostList (readTree s)))"
  shows "(\<forall>f \<in> set (PlainHostItem.folders h). PlainHostItem.name h = StringLabel (FolderItem.host f))
       \<and> ((\<forall>n. PlainHostItem.name h \<noteq> StringLabel n) \<longrightarrow> PlainHostItem.folders h = [])
       \<and> (\<exists>rs q. config s = Some rs \<and> q \<in> set rs \<and> HostConfig.type q = Manual \<and> h = hostItem q
            \<and> PlainHostItem.name h = HostConfig.name q
            \<and> (\<forall>n. HostConfig.name q = StringLabel n \<longrightarrow>
                  PlainHostItem.folders h
                    = map (\<lambda>f. case f of FolderPath p \<Rightarrow> newFolderItem p n p
                                       | FolderEntry a p \<Rightarrow> newFolderItem a n p)
                        (case HostConfig.folders q of None \<Rightarrow> [] | Some fs \<Rightarrow> fs)))"
proof -
  obtain rs q where q: "config s = Some rs" "q \<in> set rs" "HostConfig.type q = Manual" "h = hostItem q"
  proof (cases "config s")
    case None
    then show ?thesis using assms by (simp add: getHostList_readTree)
  next
    case (Some rs)
    then obtain q where "q \<in> set rs" "HostConfig.type q = Manual" "h = hostItem q"
      using assms by (auto simp: getHostList_readTree)
    then show ?thesis using that Some by blast
  qed
  have a: "\<forall>f \<in> set (PlainHostItem.folders h). PlainHostItem.name h = StringLabel (FolderItem.host f)"
    using q(4) by (auto simp: folders_hostItem hostItem_fields newFolderItem_def
        split: item_label.splits FolderConfig.splits)
  have b: "(\<forall>n. PlainHostItem.name h \<noteq> StringLabel n) \<longrightarrow> PlainHostItem.folders h = []"
    using q(4) by (auto simp: folders_hostItem hostItem_fields split: item_label.splits)
  have c: "\<forall>n. HostConfig.name q = StringLabel n \<longrightarrow>
                  PlainHostItem.folders h
                    = map (\<lambda>f. case f of FolderPath p \<Rightarrow> newFolderItem p n p
                                       | FolderEntry a p \<Rightarrow> newFolderItem a n p)
                        (case HostConfig.folders q of None \<Rightarrow> [] | Some fs \<Rightarrow> fs)"
    using q(4) by (simp add: folders_hostItem)
  have "config s = Some rs \<and> q \<in> set rs \<and> HostConfig.type q = Manual \<and> h = hostItem q
            \<and> PlainHostItem.name h = HostConfig.name q
            \<and> (\<forall>n. HostConfig.name q = StringLabel n \<longrightarrow>
                  PlainHostItem.folders h
                    = map (\<lambda>f. case f of FolderPath p \<Rightarrow> newFolderItem p n p
                                       | FolderEntry a p \<Rightarrow> newFolderItem a n p)
                        (case HostConfig.folders q of None \<Rightarrow> [] | Some fs \<Rightarrow> fs))"
    using q c by (simp add: hostItem_fields)
  then have "\<exists>rs q. config s = Some rs \<and> q \<in> set rs \<and> HostConfig.type q = Manual \<and> h = hostItem q
            \<and> PlainHostItem.name h = HostConfig.name q
            \<and> (\<forall>n. HostConfig.name q = StringLabel n \<longrightarrow>
                  PlainHostItem.folders h
                    = map (\<lambda>f. case f of FolderPath p \<Rightarrow> newFolderItem p n p
                                       | FolderEntry a p \<Rightarrow> newFolderItem a n p)
                        (case HostConfig.folders q of None \<Rightarrow> [] | Some fs \<Rightarrow> fs))"
    by (intro exI)
  with a b show ?thesis by (intro conjI)
qed

text \<open>
  C10 at a configuration with two folders under \<open>a\<close> and a second record whose name
  is no string.
\<close>

theorem folder_back_reference_witness:
  "map PlainHostItem.folders (fst (getHostList (readTree (initial folderConfig None))))
     = [[\<lparr>FolderItem.label = js ''/srv'', host = js ''a'', path = js ''/srv''\<rparr>,
         \<lparr>FolderItem.label = js ''home'', host = js ''a'', path = js ''/home/u''\<rparr>], []]
   \<and> map PlainHostItem.name (fst (getHostList (readTree (initial folderConfig None))))
     = [StringLabel (js ''a''), OtherLabel]"
proof -
  let ?hs = "fst (getHostList (readTree (initial folderConfig None)))"
  have hs: "?hs = map hostItem folderConfig"
    by (simp add: getHostList_readTree initial_def folderConfig_def rawHost_def)
  have 1: "hostItem (hd folderConfig) \<in> set ?hs"
    unfolding hs by (simp add: folderConfig_def)
  have "map PlainHostItem.folders ?hs
     = [[\<lparr>FolderItem.label = js ''/srv'', host = js ''a'', path = js ''/srv''\<rparr>,
         \<lparr>FolderItem.label = js ''home'', host = js ''a'', path = js ''/home/u''\<rparr>], []]"
    unfolding hs
    by (simp add: folderConfig_def rawHost_def hostItem_def newPlainHostItem_def addFolder_def
        newFolderItem_def Let_def)
  moreover have "map PlainHostItem.name ?hs = [StringLabel (js ''a''), OtherLabel]"
    unfolding hs by (simp add: folderConfig_def rawHost_def hostItem_fields)
  ultimately show ?thesis
    using folder_back_reference [OF 1] by simp
qed

section \<open>Claims about the authority codec and the host pattern\<close>

text \<open>
  C1. Decoding the token that \<open>encode_remote_host\<close> makes of a host reference returns
  the object of that reference, and reading that object as a \<open>HostInfo\<close> gives the
  reference back. This holds for every host string and every integer port, whether or
  not the port goes with the kind.
\<close>

theorem decode_encode_round_trip:
  "decode_remote_host (encode_remote_host r) = Inr (Some (object_of r))
   \<and> as_HostInfo (object_of r) = Some r"
  using decode_payload [OF match_marker_encode, of r] as_HostInfo_object_of [of r] by simp

text \<open>C1 at the transient reference to \<open>example.com\<close>, port 22.\<close>

theorem decode_encode_round_trip_witness:
  "decode_remote_host (encode_remote_host sampleHost)
     = Inr (Some (JObject [(js ''type'', JString (js ''transient'')),
                           (js ''host'', JString (js ''example.com'')),
                           (js ''port'', JNumber 22)]))
   \<and> as_HostInfo (JObject [(js ''type'', JString (js ''transient'')),
                           (js ''host'', JString (js ''example.com'')),
                           (js ''port'', JNumber 22)]) = Some sampleHost"
  using decode_encode_round_trip [of sampleHost]
  by (simp add: object_of_def sampleHost_def type_string_def)

text \<open>
  C4, as amended. An input that carries the marker is never answered with the
  \<open>undefined\<close> of an unrecognized token. The payload is what stands between the first
  occurrence of the marker and the next line terminator or the end; it is decoded
  leniently as base64 and read as UTF-8. When that text is no valid JSON, decoding fails
  with a \<open>SyntaxError\<close>; when it is, decoding returns the parsed value as it is,
  whatever its shape. The parser has enough fuel on that text.
\<close>

theorem marker_payload_parsed:
  assumes "sublist (js ''remote-oss+'') s"
  shows "decode_remote_host s \<noteq> Inr None
    \<and> (\<exists>pre cap rest.
          s = pre @ js ''remote-oss+'' @ cap @ rest
        \<and> (\<forall>i < length pre. take 11 (drop i s) \<noteq> js ''remote-oss+'')
        \<and> (\<forall>c \<in> set cap. \<not> line_terminator c)
        \<and> (rest = [] \<or> line_terminator (hd rest))
        \<and> parse_value (2 * length (utf8_decode (base64_decode cap)) + 1)
             (utf8_decode (base64_decode cap)) \<noteq> OutOfFuel
        \<and> (JSON_parse (utf8_decode (base64_decode cap)) = None
             \<longrightarrow> decode_remote_host s = Inl SyntaxError)
        \<and> (\<forall>v. JSON_parse (utf8_decode (base64_decode cap)) = Some v
             \<longrightarrow> decode_remote_host s = Inr (Some v)))"
proof -
  from marker_decomposition [OF assms] obtain pre cap rest
    where d: "s = pre @ js ''remote-oss+'' @ cap @ rest"
      "\<forall>i < length pre. take 11 (drop i s) \<noteq> js ''remote-oss+''"
      "\<forall>c \<in> set cap. \<not> line_terminator c" "rest = [] \<or> line_terminator (hd rest)"
    by blast
  then have m: "match_marker s = Some cap"
    using match_marker_first [of pre cap rest] by simp
  have n: "JSON_parse (utf8_decode (base64_decode cap)) = None
      \<longrightarrow> decode_remote_host s = Inl SyntaxError"
    by (simp add: decode_remote_host_def m)
  have v: "\<forall>v. JSON_parse (utf8_decode (base64_decode cap)) = Some v
      \<longrightarrow> decode_remote_host s = Inr (Some v)"
    by (simp add: decode_remote_host_def m)
  note f = enough_fuel [of "utf8_decode (base64_decode cap)"]
  have "s = pre @ js ''remote-oss+'' @ cap @ rest
        \<and> (\<forall>i < length pre. take 11 (drop i s) \<noteq> js ''remote-oss+'')
        \<and> (\<forall>c \<in> set cap. \<not> line_terminator c)
        \<and> (rest = [] \<or> line_terminator (hd rest))
        \<and> parse_value (2 * length (utf8_decode (base64_decode cap)) + 1)
             (utf8_decode (base64_decode cap)) \<noteq> OutOfFuel
        \<and> (JSON_parse (utf8_decode (base64_decode cap)) = None
             \<longrightarrow> decode_remote_host s = Inl SyntaxError)
        \<and> (\<forall>v. JSON_parse (utf8_decode (base64_decode cap)) = Some v
             \<longrightarrow> decode_remote_host s = Inr (Some v))"
    using d n v f by (intro conjI)
  then have "\<exists>pre cap rest.
          s = pre @ js ''remote-oss+'' @ cap @ rest
        \<and> (\<forall>i < length pre. take 11 (drop i s) \<noteq> js ''remote-oss+'')
        \<and> (\<forall>c \<in> set cap. \<not> line_terminator c)
        \<and> (rest = [] \<or> line_terminator (hd rest))
        \<and> parse_value (2 * length (utf8_decode (base64_decode cap)) + 1)
             (utf8_decode (base64_decode cap)) \<noteq> OutOfFuel
        \<and> (JSON_parse (utf8_decode (base64_decode cap)) = None
             \<longrightarrow> decode_remote_host s = Inl SyntaxError)
        \<and> (\<forall>v. JSON_parse (utf8_decode (base64_decode cap)) = Some v
             \<longrightarrow> decode_remote_host s = Inr (Some v))"
    by (intro exI)
  with decode_not_none [OF assms] show ?thesis by (rule conjI)
qed

text \<open>
  C4 fails as stated: the payload \<open>e30=\<close> is the text of the empty object, which is no
  host reference, and decoding returns it without a failure.
\<close>

theorem unchecked_payload_counterexample:
  "sublist (js ''remote-oss+'') (js ''remote-oss+e30='')
   \<and> decode_remote_host (js ''remote-oss+e30='') = Inr (Some (JObject []))
   \<and> as_HostInfo (JObject []) = None"
  using carries_empty_object empty_object not_host by simp

text \<open>The amended C4 at a payload that is no JSON: decoding fails with a \<open>SyntaxError\<close>.\<close>

theorem marker_payload_parsed_witness:
  "sublist (js ''remote-oss+'') (js ''remote-oss+!'')
   \<and> decode_remote_host (js ''remote-oss+!'') \<noteq> Inr None
   \<and> decode_remote_host (js ''remote-oss+!'') = Inl SyntaxError"
proof -
  from marker_payload_parsed [OF carries_bang]
  have "decode_remote_host (js ''remote-oss+!'') \<noteq> Inr None" by (rule conjunct1)
  with carries_bang decode_bang show ?thesis by (intro conjI)
qed

text \<open>
  C7. The handler accepts a string of the form \<open>[literal]:port\<close> with the literal as
  host, and otherwise a string of the form \<open>hostname:port\<close> with the host name as host;
  the port is the number that \<open>parseInt\<close> makes of the digits, which is their decimal
  value as long as that is at most \<open>2^53\<close>. Every other input is answered with an error
  message: a dismissed box and the empty string with \<open>Host should not be empty.\<close>,
  anything else with the message about the format. The three examples of the spec come
  out as it says.
\<close>

theorem temporary_host_forms:
  "(bracketed_form s h p \<longrightarrow>
      temporaryHost (Some s)
        = Inr \<lparr>TemporaryHostInfo.type = Transient, host = h, port = parseInt p\<rparr>)
 \<and> ((\<forall>h' p'. \<not> bracketed_form s h' p') \<and> hostname_form s h p \<longrightarrow>
      temporaryHost (Some s)
        = Inr \<lparr>TemporaryHostInfo.type = Transient, host = h, port = parseInt p\<rparr>)
 \<and> (decimal p \<le> 2 ^ 53 \<longrightarrow> parseInt p = Finite (int (decimal p)))
 \<and> ((\<forall>h p. \<not> bracketed_form s h p) \<and> (\<forall>h p. \<not> hostname_form s h p) \<longrightarrow>
      temporaryHost (Some s) = Inl (if s = [] then empty_message else format_message))
 \<and> temporaryHost None = Inl empty_message
 \<and> temporaryHost (Some (js ''example.com:22''))
      = Inr \<lparr>TemporaryHostInfo.type = Transient, host = js ''example.com'', port = Finite 22\<rparr>
 \<and> temporaryHost (Some (js ''[::1]:2222''))
      = Inr \<lparr>TemporaryHostInfo.type = Transient, host = js ''::1'', port = Finite 2222\<rparr>
 \<and> temporaryHost (Some (js ''bad-input'')) = Inl format_message"
proof (intro conjI impI)
  show "temporaryHost (Some (js ''example.com:22''))
      = Inr \<lparr>TemporaryHostInfo.type = Transient, host = js ''example.com'', port = Finite 22\<rparr>"
  proof -
    have "\<forall>h' p'. \<not> bracketed_form (js ''example.com:22'') h' p'"
      using not_bracketed [OF example_plain_not_bracketed] by blast
    from temporaryHost_hostname [OF this example_plain] show ?thesis
      by (simp only: parseInt_examples)
  qed
  show "temporaryHost (Some (js ''[::1]:2222''))
      = Inr \<lparr>TemporaryHostInfo.type = Transient, host = js ''::1'', port = Finite 2222\<rparr>"
    using temporaryHost_bracketed [OF example_bracketed] by (simp only: parseInt_examples)
  have "js ''bad-input'' \<noteq> []" by (simp add: js_def)
  then show "temporaryHost (Some (js ''bad-input'')) = Inl format_message"
    by (simp add: temporaryHost_def match_host_def example_bad)
  show "temporaryHost None = Inl empty_message"
    by (simp add: temporaryHost_def)
  show "temporaryHost (Some s)
      = Inr \<lparr>TemporaryHostInfo.type = Transient, host = h, port = parseInt p\<rparr>"
    if "bracketed_form s h p"
    using that by (rule temporaryHost_bracketed)
  show "temporaryHost (Some s)
      = Inr \<lparr>TemporaryHostInfo.type = Transient, host = h, port = parseInt p\<rparr>"
    if "(\<forall>h' p'. \<not> bracketed_form s h' p') \<and> hostname_form s h p"
    using that temporaryHost_hostname [of s h p] by blast
  show "parseInt p = Finite (int (decimal p))" if "decimal p \<le> 2 ^ 53"
    using that by (rule parseInt_exact)
  show "temporaryHost (Some s) = Inl (if s = [] then empty_message else format_message)"
    if "(\<forall>h p. \<not> bracketed_form s h p) \<and> (\<forall>h p. \<not> hostname_form s h p)"
    using that temporaryHost_rejected [of s] by blast
qed

text \<open>C7 at the examples of the spec and at the empty string.\<close>

theorem temporary_host_forms_witness:
  "bracketed_form (js ''[::1]:2222'') (js ''::1'') (js ''2222'')
 \<and> temporaryHost (Some (js ''[::1]:2222''))
      = Inr \<lparr>TemporaryHostInfo.type = Transient, host = js ''::1'', port = parseInt (js ''2222'')\<rparr>
 \<and> hostname_form (js ''example.com:22'') (js ''example.com'') (js ''22'')
 \<and> temporaryHost (Some (js ''example.com:22''))
      = Inr \<lparr>TemporaryHostInfo.type = Transient, host = js ''example.com'', port = parseInt (js ''22'')\<rparr>
 \<and> decimal (js ''22'') \<le> 2 ^ 53
 \<and> parseInt (js ''22'') = Finite (int (decimal (js ''22'')))
 \<and> temporaryHost (Some (js ''bad-input'')) = Inl format_message
 \<and> temporaryHost (Some []) = Inl empty_message"
proof -
  have nb: "\<forall>h' p'. \<not> bracketed_form (js ''example.com:22'') h' p'"
    using not_bracketed [OF example_plain_not_bracketed] by blast
  have bad: "(\<forall>h p. \<not> bracketed_form (js ''bad-input'') h p)
           \<and> (\<forall>h p. \<not> hostname_form (js ''bad-input'') h p)"
    using not_bracketed [OF example_bad(1)] not_hostname [OF example_bad(2)] by blast
  have e: "(\<forall>h p. \<not> bracketed_form [] h p) \<and> (\<forall>h p. \<not> hostname_form [] h p)"
    by (simp add: bracketed_form_def hostname_form_def)
  have ne: "js ''bad-input'' \<noteq> []" by (simp add: js_def)
  have d: "decimal (js ''22'') \<le> 2 ^ 53" by (simp add: decimal_examples)
  have 1: "temporaryHost (Some (js ''[::1]:2222''))
      = Inr \<lparr>TemporaryHostInfo.type = Transient, host = js ''::1'', port = parseInt (js ''2222'')\<rparr>"
    using temporary_host_forms [of "js ''[::1]:2222''" "js ''::1''" "js ''2222''"] example_bracketed
    by blast
  have 2: "temporaryHost (Some (js ''example.com:22''))
      = Inr \<lparr>TemporaryHostInfo.type = Transient, host = js ''example.com'', port = parseInt (js ''22'')\<rparr>"
    using temporary_host_forms [of "js ''example.com:22''" "js ''example.com''" "js ''22''"] example_plain nb
    by blast
  have 3: "temporaryHost (Some (js ''bad-input'')) = Inl format_message"
    using temporary_host_forms [of "js ''bad-input''"] by blast
  have 4: "temporaryHost (Some []) = Inl empty_message"
    using temporary_host_forms [of "[]"] e by simp
  have 5: "parseInt (js ''22'') = Finite (int (decimal (js ''22'')))"
    using temporary_host_forms [of _ _ "js ''22''"] d by blast
  from 1 2 3 4 5 d example_bracketed example_plain show ?thesis by blast
qed

text \<open>
  C8. Whatever non-empty string stands before a token, as long as the marker does not
  begin inside it, the input does not begin with the marker and yet decodes to the
  host reference of the token: the search for the marker is not anchored.
\<close>

theorem decode_unanchored:
  assumes "pre \<noteq> []"
    and "\<forall>i < length pre. take 11 (drop i (pre @ encode_remote_host r)) \<noteq> js ''remote-oss+''"
  shows "\<not> prefix (js ''remote-oss+'') (pre @ encode_remote_host r)
    \<and> decode_remote_host (pre @ encode_remote_host r) = Inr (Some (object_of r))
    \<and> as_HostInfo (object_of r) = Some r"
proof -
  let ?b = "base64_encode (utf8_encode (JSON_stringify r))"
  have e: "encode_remote_host r = js ''remote-oss+'' @ ?b @ []"
    by (simp add: encode_remote_host_def)
  have "match_marker (pre @ js ''remote-oss+'' @ ?b @ []) = Some ?b"
    using assms(2) base64_encode_plain unfolding e
    by (intro match_marker_first) auto
  then have "decode_remote_host (pre @ encode_remote_host r) = Inr (Some (object_of r))"
    unfolding e by (rule decode_payload)
  moreover have "\<not> prefix (js ''remote-oss+'') (pre @ encode_remote_host r)"
  proof -
    from assms(1) have "0 < length pre" by simp
    from assms(2) [rule_format, OF this]
    have "take 11 (pre @ encode_remote_host r) \<noteq> js ''remote-oss+''" by simp
    then show ?thesis
      using take_marker_prefix [of "pre @ encode_remote_host r"] by blast
  qed
  ultimately show ?thesis
    using as_HostInfo_object_of by simp
qed

text \<open>C8 at the token of \<open>example.com\<close>, port 22, with \<open>xx\<close> before it.\<close>

theorem decode_unanchored_witness:
  "\<not> prefix (js ''remote-oss+'') (js ''xx'' @ encode_remote_host sampleHost)
   \<and> decode_remote_host (js ''xx'' @ encode_remote_host sampleHost)
       = Inr (Some (object_of sampleHost))
   \<and> as_HostInfo (object_of sampleHost) = Some sampleHost"
proof -
  have 1: "js ''xx'' \<noteq> []" by (simp add: js_def)
  have "0x72 \<notin> set (js ''xx'')" by (simp add: js_def)
  from decode_unanchored [OF 1 first_occurrence [OF this]] show ?thesis .
qed

end
